theory Spec2Isabelle
  imports Main "HOL-Library.Word"
begin

unbundle bit_operations_syntax

section \<open>Digital residues and packets\<close>

text \<open>
  A digital residue is an \<^verbatim>\<open>ESL_DSQ\<close>, an unsigned byte. A packet is a \<^verbatim>\<open>uint32_t\<close>:
  bit 31 is the end-of-data flag, bit 30 selects 5-bit packing, bits 29..0 carry six
  5-bit residues or fifteen 2-bit residues.
\<close>

type_synonym ESL_DSQ = "8 word"
type_synonym packet = "32 word"

section \<open>Packing (\<^verbatim>\<open>dsqdata_pack5\<close>, \<^verbatim>\<open>dsqdata_pack2\<close>)\<close>

text \<open>
  The digital sequence \<open>dsq\<close> is the array the packers receive: residues are at
  indices \<open>1..n\<close> (index 0 holds the leading sentinel). The packers only read
  \<open>dsq[r]\<close> for \<open>1 \<le> r \<le> n\<close>. The packet array is returned as a list; \<open>pos\<close> is its
  length. The C code stores the packets over the array it is reading; the last section,
  on packing in place, shows that no store reaches a residue still to be read, so that the
  list is what the buffer holds at return.

  The two inner loops of the 5-bit branch are the same text in both packers:
  \<^verbatim>\<open>for (b = 25; b >= 0 && r <= n; b -= 5) v |= (uint32_t) dsq[r++] << b;\<close>
  \<^verbatim>\<open>for (      ; b >= 0;           b -= 5) v |= (uint32_t)       31 << b;\<close>
\<close>

function pack5_fill :: "ESL_DSQ list \<Rightarrow> nat \<Rightarrow> int \<Rightarrow> nat \<Rightarrow> packet \<Rightarrow> int \<times> nat \<times> packet" where
  "pack5_fill dsq n b r v =
     (if 0 \<le> b \<and> r \<le> n
      then pack5_fill dsq n (b - 5) (r + 1) (v OR push_bit (nat b) (ucast (dsq ! r)))
      else (b, r, v))"
  by pat_completeness auto
termination
  by (relation "measure (\<lambda>(dsq, n, b, r, v). nat (b + 5))") auto

declare pack5_fill.simps [simp del]

function pack5_pad :: "int \<Rightarrow> packet \<Rightarrow> packet" where
  "pack5_pad b v = (if 0 \<le> b then pack5_pad (b - 5) (v OR push_bit (nat b) 31) else v)"
  by pat_completeness auto
termination
  by (relation "measure (\<lambda>(b, v). nat (b + 5))") auto

declare pack5_pad.simps [simp del]

text \<open>One iteration of the outer loop of \<^verbatim>\<open>dsqdata_pack5\<close>: the packet and the new \<open>r\<close>.\<close>

definition pack5_packet :: "ESL_DSQ list \<Rightarrow> nat \<Rightarrow> nat \<Rightarrow> nat \<times> packet" where
  "pack5_packet dsq n r =
     (case pack5_fill dsq n 25 r (push_bit 30 1) of
        (b, r', v) \<Rightarrow>
          (r', (if r' > n then pack5_pad b v OR push_bit 31 1 else pack5_pad b v)))"

lemma pack5_fill_r_mono: "r \<le> fst (snd (pack5_fill dsq n b r v))"
proof (induction dsq n b r v rule: pack5_fill.induct)
  case (1 dsq n b r v)
  show ?case
  proof (cases "0 \<le> b \<and> r \<le> n")
    case True
    with 1 have "r + 1 \<le> fst (snd (pack5_fill dsq n b r v))"
      by (subst pack5_fill.simps) simp
    then show ?thesis by simp
  next
    case False
    then show ?thesis by (subst pack5_fill.simps) auto
  qed
qed

lemma pack5_fill_r_step:
  assumes "0 \<le> b" "r \<le> n"
  shows "r < fst (snd (pack5_fill dsq n b r v))"
proof -
  have "pack5_fill dsq n b r v
        = pack5_fill dsq n (b - 5) (r + 1) (v OR push_bit (nat b) (ucast (dsq ! r)))"
    using assms by (subst pack5_fill.simps) simp
  moreover have "r + 1 \<le> fst (snd (pack5_fill dsq n (b - 5) (r + 1)
                                  (v OR push_bit (nat b) (ucast (dsq ! r)))))"
    by (rule pack5_fill_r_mono)
  ultimately show ?thesis by simp
qed

lemma pack5_packet_r_step: "r \<le> n \<Longrightarrow> r < fst (pack5_packet dsq n r)"
  using pack5_fill_r_step [of 25 r n dsq "push_bit 30 1"]
  by (auto simp: pack5_packet_def split: prod.splits)

function dsqdata_pack5_loop :: "ESL_DSQ list \<Rightarrow> nat \<Rightarrow> nat \<Rightarrow> packet list \<Rightarrow> packet list" where
  "dsqdata_pack5_loop dsq n r psq =
     (if r \<le> n
      then dsqdata_pack5_loop dsq n (fst (pack5_packet dsq n r)) (psq @ [snd (pack5_packet dsq n r)])
      else psq)"
  by pat_completeness auto
termination
  by (relation "measure (\<lambda>(dsq, n, r, psq). n + 1 - r)")
     (use pack5_packet_r_step in \<open>auto simp: less_diff_conv2 intro: diff_less_mono2\<close>)

declare dsqdata_pack5_loop.simps [simp del]

definition dsqdata_pack5 :: "ESL_DSQ list \<Rightarrow> nat \<Rightarrow> packet list" where
  "dsqdata_pack5 dsq n = dsqdata_pack5_loop dsq n 1 []"

text \<open>
  \<^verbatim>\<open>dsqdata_pack2\<close>. The detector \<open>d\<close> is the position of the next degenerate residue
  (code above 3): \<^verbatim>\<open>if (d < r) for (d = r; d <= n; d++) if (dsq[d] > 3) break;\<close>
\<close>

function next_degen :: "ESL_DSQ list \<Rightarrow> nat \<Rightarrow> nat \<Rightarrow> nat" where
  "next_degen dsq n d =
     (if d \<le> n then (if dsq ! d > 3 then d else next_degen dsq n (d + 1)) else d)"
  by pat_completeness auto
termination
  by (relation "measure (\<lambda>(dsq, n, d). n + 1 - d)") auto

declare next_degen.simps [simp del]

text \<open>\<^verbatim>\<open>for (b = 28; b >= 0; b -=2) v |= (uint32_t) dsq[r++] << b;\<close>\<close>

function pack2_fill :: "ESL_DSQ list \<Rightarrow> int \<Rightarrow> nat \<Rightarrow> packet \<Rightarrow> nat \<times> packet" where
  "pack2_fill dsq b r v =
     (if 0 \<le> b
      then pack2_fill dsq (b - 2) (r + 1) (v OR push_bit (nat b) (ucast (dsq ! r)))
      else (r, v))"
  by pat_completeness auto
termination
  by (relation "measure (\<lambda>(dsq, b, r, v). nat (b + 2))") auto

declare pack2_fill.simps [simp del]

text \<open>One iteration of the outer loop of \<^verbatim>\<open>dsqdata_pack2\<close>: the new \<open>d\<close>, the new \<open>r\<close>, the packet.\<close>

definition pack2_packet :: "ESL_DSQ list \<Rightarrow> nat \<Rightarrow> nat \<Rightarrow> nat \<Rightarrow> nat \<times> nat \<times> packet" where
  "pack2_packet dsq n d r =
     (let d' = (if d < r then next_degen dsq n r else d) in
      case (if n - r + 1 \<ge> 15 \<and> d' > r + 14
            then pack2_fill dsq 28 r 0
            else (case pack5_fill dsq n 25 r (push_bit 30 1) of (b, r', v) \<Rightarrow> (r', pack5_pad b v)))
      of (r', v) \<Rightarrow> (d', r', if r' > n then v OR push_bit 31 1 else v))"

lemma pack2_fill_r_step: "0 \<le> b \<Longrightarrow> r < fst (pack2_fill dsq b r v)"
proof (induction dsq b r v rule: pack2_fill.induct)
  case (1 dsq b r v)
  show ?case
  proof (cases "0 \<le> b - 2")
    case True
    with 1 have "r + 1 < fst (pack2_fill dsq (b - 2) (r + 1)
                                (v OR push_bit (nat b) (ucast (dsq ! r))))"
      by simp
    with "1.prems" show ?thesis by (subst pack2_fill.simps) simp
  next
    case False
    then have "pack2_fill dsq (b - 2) (r + 1) (v OR push_bit (nat b) (ucast (dsq ! r)))
               = (r + 1, v OR push_bit (nat b) (ucast (dsq ! r)))"
      by (subst pack2_fill.simps) simp
    with "1.prems" show ?thesis by (subst pack2_fill.simps) simp
  qed
qed

lemma pack2_packet_r_step: "r \<le> n \<Longrightarrow> r < fst (snd (pack2_packet dsq n d r))"
  using pack5_fill_r_step [of 25 r n dsq "push_bit 30 1"] pack2_fill_r_step [of 28 r dsq 0]
  by (auto simp: pack2_packet_def Let_def split: prod.splits)

function dsqdata_pack2_loop ::
  "ESL_DSQ list \<Rightarrow> nat \<Rightarrow> nat \<Rightarrow> nat \<Rightarrow> packet list \<Rightarrow> packet list" where
  "dsqdata_pack2_loop dsq n d r psq =
     (if r \<le> n
      then dsqdata_pack2_loop dsq n (fst (pack2_packet dsq n d r)) (fst (snd (pack2_packet dsq n d r)))
             (psq @ [snd (snd (pack2_packet dsq n d r))])
      else psq)"
  by pat_completeness auto
termination
  by (relation "measure (\<lambda>(dsq, n, d, r, psq). n + 1 - r)")
     (use pack2_packet_r_step in \<open>auto simp: less_diff_conv2 intro: diff_less_mono2\<close>)

declare dsqdata_pack2_loop.simps [simp del]

definition dsqdata_pack2 :: "ESL_DSQ list \<Rightarrow> nat \<Rightarrow> packet list" where
  "dsqdata_pack2 dsq n = dsqdata_pack2_loop dsq n 0 1 []"

section \<open>Decoding expressions of \<^verbatim>\<open>dsqdata_unpack_chunk\<close>\<close>

text \<open>
  \<^verbatim>\<open>dsq[r++] = (v >> bitshift) & 31\<close> and \<^verbatim>\<open>dsq[r++] = (v >> bitshift) & 3\<close>: the
  assignment to an \<^verbatim>\<open>ESL_DSQ\<close> keeps the low byte.
\<close>

definition res5 :: "packet \<Rightarrow> nat \<Rightarrow> ESL_DSQ" where
  "res5 v bitshift = ucast (drop_bit bitshift v AND 31)"

definition res2 :: "packet \<Rightarrow> nat \<Rightarrow> ESL_DSQ" where
  "res2 v bitshift = ucast (drop_bit bitshift v AND 3)"

text \<open>The fifteen residues of a 2-bit packet (cases 0 and 2 of the switch), in the order written.\<close>

definition unpack_2bit :: "packet \<Rightarrow> ESL_DSQ list" where
  "unpack_2bit v =
     [res2 v 28, res2 v 26, res2 v 24, res2 v 22, res2 v 20, res2 v 18, res2 v 16, res2 v 14,
      res2 v 12, res2 v 10, res2 v 8, res2 v 6, res2 v 4, res2 v 2, res2 v 0]"

text \<open>The six residues of a full 5-bit packet (case 1), in the order written.\<close>

definition unpack_5bit :: "packet \<Rightarrow> ESL_DSQ list" where
  "unpack_5bit v = [res5 v 25, res5 v 20, res5 v 15, res5 v 10, res5 v 5, res5 v 0]"

text \<open>
  The residues of a 5-bit EOD packet (case 3), which stop at the first code 31:
  \<^verbatim>\<open>for (bitshift = 25; bitshift >= 0 && ((v >> bitshift) & 31) != 31; bitshift -= 5)\<close>
\<close>

function unpack_5bit_eod :: "packet \<Rightarrow> int \<Rightarrow> ESL_DSQ list" where
  "unpack_5bit_eod v bitshift =
     (if 0 \<le> bitshift \<and> drop_bit (nat bitshift) v AND 31 \<noteq> 31
      then res5 v (nat bitshift) # unpack_5bit_eod v (bitshift - 5)
      else [])"
  by pat_completeness auto
termination
  by (relation "measure (\<lambda>(v, bitshift). nat (bitshift + 5))") auto

declare unpack_5bit_eod.simps [simp del]

section \<open>Bit-level facts about 5-bit slots\<close>

lemma m31: "(31::packet) = mask 5" by (simp add: mask_eq_exp_minus_1)

lemma res5_or: "res5 (a OR b) s = res5 a s OR res5 b s"
  unfolding res5_def
  by (rule bit_word_eqI) (auto simp: bit_simps)

lemma lt32_tb: "(x::ESL_DSQ) < 32 \<Longrightarrow> take_bit 5 x = x"
  using less_mask_eq [of x 5] by (simp add: take_bit_eq_mask)

lemma res5_push_tb_same:
  "b \<le> 25 \<Longrightarrow> res5 (push_bit b (ucast (take_bit 5 (x::ESL_DSQ)))) b = take_bit 5 x"
  unfolding res5_def m31
  by (rule bit_word_eqI) (auto simp: bit_simps)

lemma res5_push_tb_other:
  "b + 5 \<le> s \<or> s + 5 \<le> b \<Longrightarrow> res5 (push_bit b (ucast (take_bit 5 (x::ESL_DSQ)))) s = 0"
  unfolding res5_def m31
  by (rule bit_word_eqI) (auto simp: bit_simps)

lemma res5_flag: "s \<le> 25 \<Longrightarrow> 30 \<le> k \<Longrightarrow> res5 (push_bit k 1) s = 0"
  unfolding res5_def m31
  by (rule bit_word_eqI) (auto simp: bit_simps)

lemma bit_push5_tb:
  "bit (push_bit b (ucast (take_bit 5 (x::ESL_DSQ))) :: packet) i \<Longrightarrow> b \<le> i \<and> i < b + 5"
  by (auto simp: bit_simps)

lemma res5_push_same: "(x::ESL_DSQ) < 32 \<Longrightarrow> b \<le> 25 \<Longrightarrow> res5 (push_bit b (ucast x)) b = x"
  using res5_push_tb_same [of b x] by (simp add: lt32_tb)

lemma res5_push_other:
  "(x::ESL_DSQ) < 32 \<Longrightarrow> b + 5 \<le> s \<or> s + 5 \<le> b \<Longrightarrow> res5 (push_bit b (ucast x)) s = 0"
  using res5_push_tb_other [of b s x] by (simp add: lt32_tb)

lemma bit_push5:
  "(x::ESL_DSQ) < 32 \<Longrightarrow> bit (push_bit b (ucast x) :: packet) i \<Longrightarrow> b \<le> i \<and> i < b + 5"
  using bit_push5_tb [of b x i] by (simp add: lt32_tb)

text \<open>
  \<open>or5 b xs\<close> is the value the 5-bit loops OR into a packet: the codes \<open>xs\<close> at bit
  shifts \<open>b\<close>, \<open>b - 5\<close>, ...
\<close>

fun or5 :: "nat \<Rightarrow> ESL_DSQ list \<Rightarrow> packet" where
  "or5 b [] = 0"
| "or5 b (x # xs) = push_bit b (ucast x) OR or5 (b - 5) xs"

lemma or5_append: "or5 b (xs @ ys) = or5 b xs OR or5 (b - 5 * length xs) ys"
  by (induction xs arbitrary: b) (simp_all add: ac_simps)

lemma bit_or5: "\<forall>x\<in>set xs. x < 32 \<Longrightarrow> bit (or5 b xs) i \<Longrightarrow> i < b + 5"
proof (induction xs arbitrary: b)
  case Nil
  then show ?case by simp
next
  case (Cons x xs)
  from Cons.prems(2) have "bit (push_bit b (ucast x) :: packet) i \<or> bit (or5 (b - 5) xs) i"
    by (simp add: bit_simps)
  then show ?case
  proof
    assume "bit (push_bit b (ucast x) :: packet) i"
    with Cons.prems(1) show ?thesis using bit_push5 [of x b i] by simp
  next
    assume "bit (or5 (b - 5) xs) i"
    with Cons.IH [of "b - 5"] Cons.prems(1) have "i < b - 5 + 5" by simp
    then show ?thesis by simp
  qed
qed

lemma res5_or5_above: "\<forall>x\<in>set xs. x < 32 \<Longrightarrow> b + 5 \<le> s \<Longrightarrow> res5 (or5 b xs) s = 0"
proof (induction xs arbitrary: b)
  case Nil
  then show ?case by (simp add: res5_def)
next
  case (Cons x xs)
  have "res5 (push_bit b (ucast x)) s = 0"
    using Cons.prems by (simp add: res5_push_other)
  moreover have "res5 (or5 (b - 5) xs) s = 0"
    using Cons.prems by (intro Cons.IH) simp_all
  ultimately show ?case by (simp add: res5_or)
qed

lemma res5_or5:
  "\<forall>x\<in>set xs. x < 32 \<Longrightarrow> j < length xs \<Longrightarrow> 5 * length xs \<le> b + 5 \<Longrightarrow> b \<le> 25
   \<Longrightarrow> res5 (or5 b xs) (b - 5 * j) = xs ! j"
proof (induction xs arbitrary: b j)
  case Nil
  then show ?case by simp
next
  case (Cons x xs)
  show ?case
  proof (cases j)
    case 0
    have "res5 (or5 (b - 5) xs) b = 0"
    proof (cases "5 \<le> b")
      case True
      then show ?thesis using Cons.prems(1) by (intro res5_or5_above) simp_all
    next
      case False
      with Cons.prems have "xs = []" by (cases xs) simp_all
      then show ?thesis by (simp add: res5_def)
    qed
    with 0 Cons.prems show ?thesis by (simp add: res5_or res5_push_same)
  next
    case (Suc j')
    with Cons.prems have b5: "5 \<le> b" by simp
    have "res5 (push_bit b (ucast x)) (b - 5 * j) = 0"
      using Cons.prems Suc by (intro res5_push_other) simp_all
    moreover have "res5 (or5 (b - 5) xs) (b - 5 - 5 * j') = xs ! j'"
      using Cons.prems Suc by (intro Cons.IH) simp_all
    moreover have "b - 5 - 5 * j' = b - 5 * j" using Suc by simp
    ultimately show ?thesis using Suc by (simp add: res5_or)
  qed
qed

section \<open>Bit-level facts about 2-bit slots\<close>

lemma m3: "(3::packet) = mask 2" by (simp add: mask_eq_exp_minus_1)

lemma res2_or: "res2 (a OR b) s = res2 a s OR res2 b s"
  unfolding res2_def
  by (rule bit_word_eqI) (auto simp: bit_simps)

lemma le3_tb: "(x::ESL_DSQ) \<le> 3 \<Longrightarrow> take_bit 2 x = x"
proof -
  assume "x \<le> 3"
  then have "x < 2 ^ 2" by (simp add: word_le_nat_alt word_less_nat_alt)
  then show ?thesis using less_mask_eq [of x 2] by (simp add: take_bit_eq_mask)
qed

lemma res2_push_tb_same:
  "b \<le> 28 \<Longrightarrow> res2 (push_bit b (ucast (take_bit 2 (x::ESL_DSQ)))) b = take_bit 2 x"
  unfolding res2_def m3
  by (rule bit_word_eqI) (auto simp: bit_simps)

lemma res2_push_tb_other:
  "b + 2 \<le> s \<or> s + 2 \<le> b \<Longrightarrow> res2 (push_bit b (ucast (take_bit 2 (x::ESL_DSQ)))) s = 0"
  unfolding res2_def m3
  by (rule bit_word_eqI) (auto simp: bit_simps)

lemma bit_push2_tb:
  "bit (push_bit b (ucast (take_bit 2 (x::ESL_DSQ))) :: packet) i \<Longrightarrow> b \<le> i \<and> i < b + 2"
  by (auto simp: bit_simps)

lemma res2_push_same: "(x::ESL_DSQ) \<le> 3 \<Longrightarrow> b \<le> 28 \<Longrightarrow> res2 (push_bit b (ucast x)) b = x"
  using res2_push_tb_same [of b x] by (simp add: le3_tb)

lemma res2_push_other:
  "(x::ESL_DSQ) \<le> 3 \<Longrightarrow> b + 2 \<le> s \<or> s + 2 \<le> b \<Longrightarrow> res2 (push_bit b (ucast x)) s = 0"
  using res2_push_tb_other [of b s x] by (simp add: le3_tb)

lemma bit_push2:
  "(x::ESL_DSQ) \<le> 3 \<Longrightarrow> bit (push_bit b (ucast x) :: packet) i \<Longrightarrow> b \<le> i \<and> i < b + 2"
  using bit_push2_tb [of b x i] by (simp add: le3_tb)

text \<open>
  \<open>or2 b xs\<close> is the value the 2-bit loop ORs into a packet: the codes \<open>xs\<close> at bit
  shifts \<open>b\<close>, \<open>b - 2\<close>, ...
\<close>

fun or2 :: "nat \<Rightarrow> ESL_DSQ list \<Rightarrow> packet" where
  "or2 b [] = 0"
| "or2 b (x # xs) = push_bit b (ucast x) OR or2 (b - 2) xs"

lemma bit_or2: "\<forall>x\<in>set xs. x \<le> 3 \<Longrightarrow> bit (or2 b xs) i \<Longrightarrow> i < b + 2"
proof (induction xs arbitrary: b)
  case Nil
  then show ?case by simp
next
  case (Cons x xs)
  from Cons.prems(2) have "bit (push_bit b (ucast x) :: packet) i \<or> bit (or2 (b - 2) xs) i"
    by (simp add: bit_simps)
  then show ?case
  proof
    assume "bit (push_bit b (ucast x) :: packet) i"
    with Cons.prems(1) show ?thesis using bit_push2 [of x b i] by simp
  next
    assume "bit (or2 (b - 2) xs) i"
    with Cons.IH [of "b - 2"] Cons.prems(1) have "i < b - 2 + 2" by simp
    then show ?thesis by simp
  qed
qed

lemma res2_or2_above: "\<forall>x\<in>set xs. x \<le> 3 \<Longrightarrow> b + 2 \<le> s \<Longrightarrow> res2 (or2 b xs) s = 0"
proof (induction xs arbitrary: b)
  case Nil
  then show ?case by (simp add: res2_def)
next
  case (Cons x xs)
  have "res2 (push_bit b (ucast x)) s = 0"
    using Cons.prems by (simp add: res2_push_other)
  moreover have "res2 (or2 (b - 2) xs) s = 0"
    using Cons.prems by (intro Cons.IH) simp_all
  ultimately show ?case by (simp add: res2_or)
qed

lemma res2_or2:
  "\<forall>x\<in>set xs. x \<le> 3 \<Longrightarrow> j < length xs \<Longrightarrow> 2 * length xs \<le> b + 2 \<Longrightarrow> b \<le> 28
   \<Longrightarrow> res2 (or2 b xs) (b - 2 * j) = xs ! j"
proof (induction xs arbitrary: b j)
  case Nil
  then show ?case by simp
next
  case (Cons x xs)
  show ?case
  proof (cases j)
    case 0
    have "res2 (or2 (b - 2) xs) b = 0"
    proof (cases "2 \<le> b")
      case True
      then show ?thesis using Cons.prems(1) by (intro res2_or2_above) simp_all
    next
      case False
      with Cons.prems have "xs = []" by (cases xs) simp_all
      then show ?thesis by (simp add: res2_def)
    qed
    with 0 Cons.prems show ?thesis by (simp add: res2_or res2_push_same)
  next
    case (Suc j')
    with Cons.prems have b2: "2 \<le> b" by simp
    have "b - 2 * j + 2 \<le> b" using Suc b2 by arith
    then have "res2 (push_bit b (ucast x)) (b - 2 * j) = 0"
      using Cons.prems(1) by (intro res2_push_other) simp_all
    moreover have "res2 (or2 (b - 2) xs) (b - 2 - 2 * j') = xs ! j'"
      using Cons.prems Suc by (intro Cons.IH) simp_all
    moreover have "b - 2 - 2 * j' = b - 2 * j" using Suc by simp
    ultimately show ?thesis using Suc by (simp add: res2_or)
  qed
qed

section \<open>Closed forms of the packing loops\<close>

lemma pack5_fill_eq:
  "n < length dsq \<Longrightarrow>
   pack5_fill dsq n (5 * int c - 5) r v =
     (5 * int (c - min c (n + 1 - r)) - 5, r + min c (n + 1 - r),
      v OR or5 (5 * c - 5) (take (min c (n + 1 - r)) (drop r dsq)))"
proof (induction c arbitrary: r v)
  case 0
  then show ?case by (subst pack5_fill.simps) simp
next
  case (Suc c)
  show ?case
  proof (cases "r \<le> n")
    case False
    then show ?thesis by (subst pack5_fill.simps) simp
  next
    case True
    with Suc.prems have rl: "r < length dsq" by simp
    define m' where "m' = min c (n + 1 - (r + 1))"
    have m: "min (Suc c) (n + 1 - r) = Suc m'"
      using True unfolding m'_def by arith
    have tk: "take (Suc m') (drop r dsq) = dsq ! r # take m' (drop (r + 1) dsq)"
      using rl by (simp add: Cons_nth_drop_Suc [symmetric])
    have "pack5_fill dsq n (5 * int (Suc c) - 5) r v
          = pack5_fill dsq n (5 * int c - 5) (r + 1) (v OR push_bit (5 * c) (ucast (dsq ! r)))"
      using True by (subst pack5_fill.simps) (simp add: nat_mult_distrib)
    also have "\<dots> = (5 * int (c - m') - 5, r + 1 + m',
        (v OR push_bit (5 * c) (ucast (dsq ! r))) OR or5 (5 * c - 5) (take m' (drop (r + 1) dsq)))"
      unfolding m'_def by (rule Suc.IH [OF Suc.prems])
    finally show ?thesis
      unfolding m tk by (simp add: or.assoc)
  qed
qed


lemma pack5_pad_eq: "pack5_pad (5 * int c - 5) v = v OR or5 (5 * c - 5) (replicate c 31)"
proof (induction c arbitrary: v)
  case 0
  then show ?case by (subst pack5_pad.simps) simp
next
  case (Suc c)
  have "pack5_pad (5 * int (Suc c) - 5) v = pack5_pad (5 * int c - 5) (v OR push_bit (5 * c) 31)"
    by (subst pack5_pad.simps) (simp add: nat_mult_distrib)
  then show ?case by (simp add: Suc.IH or.assoc)
qed

lemma pack2_fill_eq:
  "r + c \<le> length dsq \<Longrightarrow>
   pack2_fill dsq (2 * int c - 2) r v = (r + c, v OR or2 (2 * c - 2) (take c (drop r dsq)))"
proof (induction c arbitrary: r v)
  case 0
  then show ?case by (subst pack2_fill.simps) simp
next
  case (Suc c)
  then have rl: "r < length dsq" by simp
  have tk: "take (Suc c) (drop r dsq) = dsq ! r # take c (drop (r + 1) dsq)"
    using rl by (simp add: Cons_nth_drop_Suc [symmetric])
  have "pack2_fill dsq (2 * int (Suc c) - 2) r v
        = pack2_fill dsq (2 * int c - 2) (r + 1) (v OR push_bit (2 * c) (ucast (dsq ! r)))"
    by (subst pack2_fill.simps) (simp add: nat_mult_distrib)
  also have "\<dots> = (r + 1 + c,
      (v OR push_bit (2 * c) (ucast (dsq ! r))) OR or2 (2 * c - 2) (take c (drop (r + 1) dsq)))"
    using Suc.prems by (intro Suc.IH) simp
  finally show ?case
    unfolding tk by (simp add: or.assoc)
qed

text \<open>The payload of one 5-bit packet: the residues, then code 31 in the unused slots.\<close>

definition payload5 :: "ESL_DSQ list \<Rightarrow> packet" where
  "payload5 xs = or5 25 (xs @ replicate (6 - length xs) 31)"

lemma pack5_body_eq:
  assumes "n < length dsq" "r \<le> n"
  shows "(case pack5_fill dsq n 25 r f of (b, r', v) \<Rightarrow> (r', pack5_pad b v))
         = (r + min 6 (n + 1 - r), f OR payload5 (take (min 6 (n + 1 - r)) (drop r dsq)))"
proof -
  define m where "m = min 6 (n + 1 - r)"
  have len: "min (length dsq - r) m = m"
    using assms unfolding m_def by simp
  have fill: "pack5_fill dsq n 25 r f
        = (5 * int (6 - m) - 5, r + m, f OR or5 25 (take m (drop r dsq)))"
    using pack5_fill_eq [OF assms(1), of 6 r f] unfolding m_def by simp
  have pad: "pack5_pad (5 * int (6 - m) - 5) w = w OR or5 (5 * (6 - m) - 5) (replicate (6 - m) 31)" for w
    by (rule pack5_pad_eq)
  have sh: "25 - 5 * m = 5 * (6 - m) - 5"
    unfolding m_def by simp
  show ?thesis
    unfolding m_def [symmetric] fill
    by (simp add: pad payload5_def or5_append len sh or.assoc)
qed


lemma pack5_packet_eq:
  assumes "n < length dsq" "r \<le> n"
  shows "pack5_packet dsq n r =
     (r + min 6 (n + 1 - r),
      if r + min 6 (n + 1 - r) > n
      then push_bit 30 1 OR payload5 (take (min 6 (n + 1 - r)) (drop r dsq)) OR push_bit 31 1
      else push_bit 30 1 OR payload5 (take (min 6 (n + 1 - r)) (drop r dsq)))"
  using pack5_body_eq [OF assms, of "push_bit 30 1"]
  unfolding pack5_packet_def by (auto simp: or.assoc split: prod.splits)

lemma dsqdata_pack5_loop_done: "n < r \<Longrightarrow> dsqdata_pack5_loop dsq n r psq = psq"
  by (subst dsqdata_pack5_loop.simps) simp

lemma dsqdata_pack5_loop_eq:
  "n < length dsq \<Longrightarrow>
   dsqdata_pack5_loop dsq n r psq
     = psq @ map (\<lambda>i. snd (pack5_packet dsq n (r + 6 * i))) [0..<(n + 6 - r) div 6]"
proof (induction dsq n r psq rule: dsqdata_pack5_loop.induct)
  case (1 dsq n r psq)
  show ?case
  proof (cases "r \<le> n")
    case False
    then have "(n + 6 - r) div 6 = 0" by simp
    with False show ?thesis by (subst dsqdata_pack5_loop.simps) simp
  next
    case True
    let ?pk = "\<lambda>i. snd (pack5_packet dsq n (r + 6 * i))"
    have r': "fst (pack5_packet dsq n r) = r + min 6 (n + 1 - r)"
      using pack5_packet_eq [OF "1.prems" True] by simp
    have unfold: "dsqdata_pack5_loop dsq n r psq
        = dsqdata_pack5_loop dsq n (r + min 6 (n + 1 - r)) (psq @ [?pk 0])"
      using True by (subst dsqdata_pack5_loop.simps) (simp add: r')
    show ?thesis
    proof (cases "6 \<le> n + 1 - r")
      case False
      with True have "r + min 6 (n + 1 - r) = n + 1" and one: "(n + 6 - r) div 6 = 1"
        by simp_all
      then have "dsqdata_pack5_loop dsq n r psq = psq @ [?pk 0]"
        using unfold by (simp add: dsqdata_pack5_loop_done)
      then show ?thesis unfolding one by simp
    next
      case six: True
      then have m: "r + min 6 (n + 1 - r) = r + 6" by simp
      have cnt: "(n + 6 - r) div 6 = Suc ((n + 6 - (r + 6)) div 6)"
        using True by simp
      have "dsqdata_pack5_loop dsq n (r + 6) (psq @ [?pk 0])
            = (psq @ [?pk 0]) @ map (\<lambda>i. snd (pack5_packet dsq n (r + 6 + 6 * i)))
                                   [0..<(n + 6 - (r + 6)) div 6]"
        using "1.IH" [OF True] "1.prems" unfolding r' m by simp
      also have "map (\<lambda>i. snd (pack5_packet dsq n (r + 6 + 6 * i))) [0..<(n + 6 - (r + 6)) div 6]
            = map ?pk (map Suc [0..<(n + 6 - (r + 6)) div 6])"
        by (simp add: ac_simps)
      finally show ?thesis
        unfolding unfold m cnt by (simp add: upt_conv_Cons map_Suc_upt del: upt_Suc)
    qed
  qed
qed

lemma payload5_slot:
  assumes "\<forall>x\<in>set xs. x \<le> 30" "length xs \<le> 6" "j < 6"
  shows "res5 (f OR payload5 xs) (25 - 5 * j) =
           res5 f (25 - 5 * j) OR (if j < length xs then xs ! j else 31)"
proof -
  let ?ys = "xs @ replicate (6 - length xs) 31"
  have lt: "\<forall>x\<in>set ?ys. x < 32"
  proof
    fix x assume "x \<in> set ?ys"
    then have "x \<in> set xs \<or> x = 31" by auto
    then show "x < 32"
    proof
      assume "x \<in> set xs"
      with assms(1) have "x \<le> 30" by simp
      then show ?thesis by (simp add: word_le_nat_alt word_less_nat_alt)
    qed simp
  qed
  have "res5 (or5 25 ?ys) (25 - 5 * j) = ?ys ! j"
    using assms by (intro res5_or5 [OF lt]) simp_all
  then show ?thesis
    using assms by (simp add: payload5_def res5_or nth_append)
qed

lemma payload5_bit:
  assumes "\<forall>x\<in>set xs. x \<le> 30" "30 \<le> i"
  shows "\<not> bit (payload5 xs) i"
proof
  assume b: "bit (payload5 xs) i"
  let ?ys = "xs @ replicate (6 - length xs) 31"
  have lt: "\<forall>x\<in>set ?ys. x < 32"
  proof
    fix x assume "x \<in> set ?ys"
    then have "x \<in> set xs \<or> x = 31" by auto
    then show "x < 32"
    proof
      assume "x \<in> set xs"
      with assms(1) have "x \<le> 30" by simp
      then show ?thesis by (simp add: word_le_nat_alt word_less_nat_alt)
    qed simp
  qed
  from bit_or5 [OF lt, of 25 i] b have "i < 30" by (simp add: payload5_def)
  with assms(2) show False by simp
qed

lemma div6_iff: "(a div 6 = (q::nat)) \<longleftrightarrow> 6 * q \<le> a \<and> a < 6 * q + 6"
  by arith

lemma lt_div6_iff: "(q < a div 6) \<longleftrightarrow> 6 * q + 6 \<le> (a::nat)"
  by arith

lemma dsqdata_pack5_nth:
  assumes "n < length dsq" "p < (n + 5) div 6"
  shows "length (dsqdata_pack5 dsq n) = (n + 5) div 6"
    and "dsqdata_pack5 dsq n ! p = snd (pack5_packet dsq n (6 * p + 1))"
  using assms by (simp_all add: dsqdata_pack5_def dsqdata_pack5_loop_eq ac_simps)

section \<open>Packet arithmetic of \<^verbatim>\<open>dsqdata_pack5\<close>\<close>

text \<open>
  Claim C2, as the code has it. For a sequence of \<open>n \<ge> 0\<close> residues with codes in
  \<open>0..30\<close>, \<^verbatim>\<open>dsqdata_pack5\<close> produces exactly \<open>\<lceil>n/6\<rceil> = (n + 5) div 6\<close> packets (the
  note in the source: "a protein sequence of length N packs into exactly (N+5)/6 5-bit
  packets"), so none for \<open>n = 0\<close>. Every packet has bit 30 set; bit 31 is set on the last packet and on no
  other; slot \<open>j\<close> of packet \<open>p\<close> holds residue \<open>6p + j + 1\<close> when there is one and code 31
  otherwise, so that code 31 is found only in the trailing slots of the last packet.
\<close>

theorem pack5_packets:
  assumes "n < length dsq" and "list_all (\<lambda>x. x \<le> 30) (take n (drop 1 dsq))"
  shows "length (dsqdata_pack5 dsq n) = (n + 5) div 6 \<and>
    (\<forall>p<length (dsqdata_pack5 dsq n).
       bit (dsqdata_pack5 dsq n ! p) 30 \<and>
       (bit (dsqdata_pack5 dsq n ! p) 31 \<longleftrightarrow> Suc p = length (dsqdata_pack5 dsq n)) \<and>
       (\<forall>j<6. res5 (dsqdata_pack5 dsq n ! p) (25 - 5 * j)
                = (if 6 * p + j + 1 \<le> n then dsq ! (6 * p + j + 1) else 31)) \<and>
       (\<forall>j<6. res5 (dsqdata_pack5 dsq n ! p) (25 - 5 * j) = 31 \<longrightarrow>
                Suc p = length (dsqdata_pack5 dsq n) \<and> n < 6 * p + j + 1))"
proof -
  let ?ps = "dsqdata_pack5 dsq n"
  have len: "length ?ps = (n + 5) div 6"
    by (simp add: dsqdata_pack5_def dsqdata_pack5_loop_eq assms(1) ac_simps)
  have res: "dsq ! r \<le> 30" if "1 \<le> r" "r \<le> n" for r
  proof -
    from that assms(1) have "dsq ! r = take n (drop 1 dsq) ! (r - 1)" by simp
    moreover from that assms(1) have "r - 1 < length (take n (drop 1 dsq))" by simp
    ultimately show ?thesis using assms(2) unfolding list_all_iff by (metis nth_mem)
  qed
  have main: "bit (?ps ! p) 30 \<and> (bit (?ps ! p) 31 \<longleftrightarrow> Suc p = length ?ps) \<and>
       (\<forall>j<6. res5 (?ps ! p) (25 - 5 * j)
                = (if 6 * p + j + 1 \<le> n then dsq ! (6 * p + j + 1) else 31))"
    if p: "p < length ?ps" for p
  proof -
    define r where "r = 6 * p + 1"
    define m where "m = min 6 (n + 1 - r)"
    define xs where "xs = take m (drop r dsq)"
    from p len have rn: "r \<le> n" unfolding r_def lt_div6_iff by simp
    have pk: "?ps ! p = snd (pack5_packet dsq n r)"
      using dsqdata_pack5_nth(2) [OF assms(1)] p len unfolding r_def by simp
    have lxs: "length xs = m"
      using assms(1) rn unfolding xs_def m_def by simp
    have xs_nth: "xs ! j = dsq ! (r + j)" if "j < m" for j
      using that assms(1) rn unfolding xs_def m_def by simp
    have xs30: "\<forall>x\<in>set xs. x \<le> 30"
    proof
      fix x assume "x \<in> set xs"
      then obtain j where j: "j < m" "x = xs ! j"
        using lxs by (metis in_set_conv_nth)
      with xs_nth have "x = dsq ! (r + j)" by simp
      moreover have "1 \<le> r + j" "r + j \<le> n"
        using j(1) rn unfolding m_def r_def by auto
      ultimately show "x \<le> 30" using res by simp
    qed
    have last: "n < r + m \<longleftrightarrow> Suc p = length ?ps"
      using rn unfolding len m_def r_def eq_commute [of "Suc p"] div6_iff
      by (auto simp: min_def)
    have val: "?ps ! p = (if n < r + m then push_bit 30 1 OR payload5 xs OR push_bit 31 1
                          else push_bit 30 1 OR payload5 xs)"
      unfolding pk xs_def m_def using pack5_packet_eq [OF assms(1) rn] by simp
    have b30: "bit (?ps ! p) 30"
      unfolding val by (simp add: bit_simps)
    have b31: "bit (?ps ! p) 31 \<longleftrightarrow> n < r + m"
      unfolding val using payload5_bit [OF xs30, of 31] by (simp add: bit_simps)
    have slots: "res5 (?ps ! p) (25 - 5 * j)
                 = (if 6 * p + j + 1 \<le> n then dsq ! (6 * p + j + 1) else 31)"
      if j: "j < 6" for j
    proof -
      have m6: "length xs \<le> 6" using lxs unfolding m_def by simp
      have f0: "res5 (push_bit 30 1) (25 - 5 * j) = 0" "res5 (push_bit 31 1) (25 - 5 * j) = 0"
        using res5_flag [of "25 - 5 * j" 30] res5_flag [of "25 - 5 * j" 31] by simp_all
      have "res5 (?ps ! p) (25 - 5 * j) = (if j < m then xs ! j else 31)"
        unfolding val
        using payload5_slot [OF xs30 m6 j, of "push_bit 30 1"] f0 lxs
        by (simp add: res5_or)
      moreover have "j < m \<longleftrightarrow> 6 * p + j + 1 \<le> n"
        using j rn unfolding m_def r_def by auto
      moreover have "r + j = 6 * p + j + 1" unfolding r_def by simp
      ultimately show ?thesis using xs_nth by simp
    qed
    show ?thesis using b30 b31 last slots by simp
  qed
  have pad: "Suc p = length ?ps \<and> n < 6 * p + j + 1"
    if p: "p < length ?ps" and j: "j < 6" and e: "res5 (?ps ! p) (25 - 5 * j) = 31" for p j
  proof -
    have nres: "n < 6 * p + j + 1"
    proof (rule ccontr)
      assume "\<not> n < 6 * p + j + 1"
      then have le: "6 * p + j + 1 \<le> n" by simp
      with main [OF p] j e have "dsq ! (6 * p + j + 1) = 31" by simp
      moreover have "dsq ! (6 * p + j + 1) \<le> 30" using res le by simp
      ultimately show False by simp
    qed
    moreover have "Suc p = length ?ps"
      using nres j p unfolding len eq_commute [of "Suc p"] div6_iff lt_div6_iff by auto
    ultimately show ?thesis by simp
  qed
  show ?thesis
  proof (intro conjI allI impI)
    show "length ?ps = (n + 5) div 6" by (rule len)
  next
    fix p assume "p < length ?ps"
    from main [OF this] show "bit (?ps ! p) 30" by simp
  next
    fix p assume "p < length ?ps"
    from main [OF this] show "bit (?ps ! p) 31 \<longleftrightarrow> Suc p = length ?ps" by simp
  next
    fix p j :: nat assume "p < length ?ps" "j < 6"
    with main [of p] show "res5 (?ps ! p) (25 - 5 * j)
                = (if 6 * p + j + 1 \<le> n then dsq ! (6 * p + j + 1) else 31)" by simp
  next
    fix p j :: nat assume "p < length ?ps" "j < 6" "res5 (?ps ! p) (25 - 5 * j) = 31"
    from pad [OF this] show "Suc p = length ?ps" by simp
  next
    fix p j :: nat assume "p < length ?ps" "j < 6" "res5 (?ps ! p) (25 - 5 * j) = 31"
    from pad [OF this] show "n < 6 * p + j + 1" by simp
  qed
qed

lemmas pack5_eval = dsqdata_pack5_def dsqdata_pack5_loop.simps pack5_packet_def pack5_fill.simps
        pack5_pad.simps

text \<open>
  The theorem at a sequence of seven residues: two packets, the second one with the
  end-of-data bit and code 31 from its second slot on.
\<close>

theorem pack5_packets_witness:
  "7 < length [255, 0, 1, 2, 3, 4, 5, 6, 255 :: ESL_DSQ] \<and>
   list_all (\<lambda>x. x \<le> 30) (take 7 (drop 1 [255, 0, 1, 2, 3, 4, 5, 6, 255 :: ESL_DSQ])) \<and>
   length (dsqdata_pack5 [255, 0, 1, 2, 3, 4, 5, 6, 255] 7) = 2 \<and>
   bit (dsqdata_pack5 [255, 0, 1, 2, 3, 4, 5, 6, 255] 7 ! 1) 31 \<and>
   res5 (dsqdata_pack5 [255, 0, 1, 2, 3, 4, 5, 6, 255] 7 ! 1) 20 = 31"
  using pack5_packets [of 7 "[255, 0, 1, 2, 3, 4, 5, 6, 255]"]
  by (simp add: pack5_eval res5_def)

text \<open>
  Claim C2 as the specification words it asks for \<open>\<lceil>(n+1)/6\<rceil>\<close> packets. Six residues fill
  one packet, which also carries the end-of-data bit: one packet, not two. And a sequence
  of no residue gets no packet, not one packet of six codes 31.
\<close>

theorem pack5_count_counterexample:
  "length (dsqdata_pack5 [255, 0, 1, 2, 3, 4, 5, 255] 6) \<noteq> (6 + 1 + 5) div 6 \<and>
   length (dsqdata_pack5 [255, 255] 0) \<noteq> (0 + 1 + 5) div 6"
  by (simp add: pack5_eval)

section \<open>The degenerate-residue detector\<close>

lemma next_degen_ge: "d \<le> next_degen dsq n d"
proof (induction dsq n d rule: next_degen.induct)
  case (1 dsq n d)
  show ?case
  proof (cases "d \<le> n \<and> \<not> dsq ! d > 3")
    case True
    with 1 have "d + 1 \<le> next_degen dsq n (d + 1)" by simp
    with True show ?thesis by (subst next_degen.simps) simp
  next
    case False
    then show ?thesis by (subst next_degen.simps) auto
  qed
qed

lemma next_degen_le: "d \<le> n + 1 \<Longrightarrow> next_degen dsq n d \<le> n + 1"
proof (induction dsq n d rule: next_degen.induct)
  case (1 dsq n d)
  show ?case
  proof (cases "d \<le> n \<and> \<not> dsq ! d > 3")
    case True
    with 1 have "next_degen dsq n (d + 1) \<le> n + 1" by simp
    with True show ?thesis by (subst next_degen.simps) simp
  next
    case False
    with "1.prems" show ?thesis by (subst next_degen.simps) auto
  qed
qed

lemma next_degen_canon: "d \<le> i \<Longrightarrow> i < next_degen dsq n d \<Longrightarrow> \<not> dsq ! i > 3"
proof (induction dsq n d rule: next_degen.induct)
  case (1 dsq n d)
  show ?case
  proof (cases "d \<le> n \<and> \<not> dsq ! d > 3")
    case True
    then have eq: "next_degen dsq n d = next_degen dsq n (d + 1)"
      by (subst next_degen.simps) simp
    show ?thesis
    proof (cases "i = d")
      case True
      with \<open>d \<le> n \<and> \<not> dsq ! d > 3\<close> show ?thesis by simp
    next
      case False
      with "1.prems" have "d + 1 \<le> i" by simp
      with "1.IH" True "1.prems"(2) eq show ?thesis by simp
    qed
  next
    case False
    then have "next_degen dsq n d = d" by (subst next_degen.simps) auto
    with "1.prems" show ?thesis by simp
  qed
qed

lemma next_degen_hit: "next_degen dsq n d \<le> n \<Longrightarrow> dsq ! (next_degen dsq n d) > 3"
proof (induction dsq n d rule: next_degen.induct)
  case (1 dsq n d)
  show ?case
  proof (cases "d \<le> n \<and> \<not> dsq ! d > 3")
    case True
    then have eq: "next_degen dsq n d = next_degen dsq n (d + 1)"
      by (subst next_degen.simps) simp
    with "1.IH" True "1.prems" show ?thesis by simp
  next
    case False
    then have "next_degen dsq n d = d" by (subst next_degen.simps) auto
    with "1.prems" False show ?thesis by auto
  qed
qed

lemma next_degen_shift:
  "d \<le> d' \<Longrightarrow> d' \<le> next_degen dsq n d \<Longrightarrow> next_degen dsq n d' = next_degen dsq n d"
proof (induction dsq n d rule: next_degen.induct)
  case (1 dsq n d)
  show ?case
  proof (cases "d' = d")
    case True
    then show ?thesis by simp
  next
    case False
    with "1.prems" have lt: "d < d'" by simp
    show ?thesis
    proof (cases "d \<le> n \<and> \<not> dsq ! d > 3")
      case True
      then have eq: "next_degen dsq n d = next_degen dsq n (d + 1)"
        by (subst next_degen.simps) simp
      with "1.IH" True "1.prems" lt show ?thesis by simp
    next
      case False
      then have "next_degen dsq n d = d" by (subst next_degen.simps) auto
      with "1.prems" lt show ?thesis by simp
    qed
  qed
qed

lemma next_degen_window:
  assumes "r + 14 \<le> n"
  shows "next_degen dsq n r > r + 14 \<longleftrightarrow> (\<forall>j<15. \<not> dsq ! (r + j) > 3)"
proof
  assume a: "next_degen dsq n r > r + 14"
  show "\<forall>j<15. \<not> dsq ! (r + j) > 3"
  proof (intro allI impI)
    fix j :: nat assume "j < 15"
    with a have "r + j < next_degen dsq n r" by simp
    then show "\<not> dsq ! (r + j) > 3" using next_degen_canon [of r "r + j" dsq n] by simp
  qed
next
  assume a: "\<forall>j<15. \<not> dsq ! (r + j) > 3"
  show "next_degen dsq n r > r + 14"
  proof (rule ccontr)
    assume "\<not> next_degen dsq n r > r + 14"
    then have le: "next_degen dsq n r \<le> r + 14" by simp
    with assms have "dsq ! (next_degen dsq n r) > 3" by (intro next_degen_hit) simp
    moreover have "r \<le> next_degen dsq n r" by (rule next_degen_ge)
    ultimately have "dsq ! (r + (next_degen dsq n r - r)) > 3" by simp
    moreover have "next_degen dsq n r - r < 15" using le by simp
    ultimately show False using a by blast
  qed
qed

lemma unpack_2bit_map: "unpack_2bit v = map (\<lambda>j. res2 v (28 - 2 * j)) [0..<15]"
  by (simp add: unpack_2bit_def upt_rec)

lemma unpack_5bit_map: "unpack_5bit v = map (\<lambda>j. res5 v (25 - 5 * j)) [0..<6]"
  by (simp add: unpack_5bit_def upt_rec)

lemma bit_2p30_int: "bit (1073741824 :: int) i \<longleftrightarrow> i = 30"
proof -
  have "(1073741824 :: int) = 2 ^ 30" by simp
  then show ?thesis by (simp only: bit_exp_iff) auto
qed

lemma bit_2p31_int: "bit (2147483648 :: int) i \<longleftrightarrow> i = 31"
proof -
  have "(2147483648 :: int) = 2 ^ 31" by simp
  then show ?thesis by (simp only: bit_exp_iff) auto
qed

lemma bit_flag30: "bit (push_bit 30 1 :: packet) i \<longleftrightarrow> i = 30"
  by (auto simp add: bit_2p30_int)

lemma bit_flag31: "bit (push_bit 31 1 :: packet) i \<longleftrightarrow> i = 31"
  by (auto simp add: bit_2p31_int)

lemma res2_flag: "s \<le> 28 \<Longrightarrow> 30 \<le> k \<Longrightarrow> res2 (push_bit k 1) s = 0"
  unfolding res2_def m3
  by (rule bit_word_eqI) (auto simp: bit_simps)

lemma unpack_2bit_or2:
  assumes "length ys = 15" "\<forall>x\<in>set ys. x \<le> 3"
  shows "unpack_2bit (or2 28 ys) = ys" "unpack_2bit (or2 28 ys OR push_bit 31 1) = ys"
proof -
  have slot: "res2 (or2 28 ys) (28 - 2 * j) = ys ! j" if "j < 15" for j
    using that assms by (intro res2_or2) simp_all
  have f: "res2 (push_bit 31 1) (28 - 2 * j) = 0" for j
    by (rule res2_flag) simp_all
  show "unpack_2bit (or2 28 ys) = ys"
    unfolding unpack_2bit_map using assms(1) slot by (intro nth_equalityI) simp_all
  show "unpack_2bit (or2 28 ys OR push_bit 31 1) = ys"
    unfolding unpack_2bit_map using assms(1) slot f
    by (intro nth_equalityI) (simp_all add: res2_or del: push_bit_of_1 )
qed

lemma unpack_5bit_payload5:
  assumes "length xs \<le> 6" "\<forall>x\<in>set xs. x \<le> 30"
  shows "unpack_5bit (push_bit 30 1 OR payload5 xs) = xs @ replicate (6 - length xs) 31"
    "unpack_5bit (push_bit 30 1 OR payload5 xs OR push_bit 31 1) = xs @ replicate (6 - length xs) 31"
proof -
  have f: "res5 (push_bit 30 1) (25 - 5 * j) = 0" "res5 (push_bit 31 1) (25 - 5 * j) = 0" for j
    by (rule res5_flag; simp)+
  have slot: "res5 (push_bit 30 1 OR payload5 xs) (25 - 5 * j)
              = (xs @ replicate (6 - length xs) 31) ! j" if "j < 6" for j
    using payload5_slot [OF assms(2) assms(1) that, of "push_bit 30 1"] f(1) [of j] that assms(1)
    by (simp add: nth_append del: push_bit_of_1)
  show "unpack_5bit (push_bit 30 1 OR payload5 xs) = xs @ replicate (6 - length xs) 31"
    unfolding unpack_5bit_map using assms(1) slot by (intro nth_equalityI) simp_all
  have "push_bit 30 1 OR payload5 xs OR push_bit 31 1
        = (push_bit 30 1 OR payload5 xs) OR (push_bit 31 1 :: packet)"
    by (simp add: or.assoc)
  then show "unpack_5bit (push_bit 30 1 OR payload5 xs OR push_bit 31 1)
        = xs @ replicate (6 - length xs) 31"
    unfolding unpack_5bit_map using assms(1) slot f(2)
    by (intro nth_equalityI) (simp_all add: res5_or del: push_bit_of_1)
qed

text \<open>
  The packing rule of claim C3, on the residues \<open>xs\<close> that remain and the packets emitted for
  them. At each step: a full 2-bit packet for the next 15 residues exactly when at least 15
  remain and none of them has a code above 3; otherwise a 5-bit packet for the next (up to)
  six, padded with code 31; bit 31 exactly on the packet that consumes the last residue.
\<close>

fun pack2_rule :: "ESL_DSQ list \<Rightarrow> packet list \<Rightarrow> bool" where
  "pack2_rule xs [] = (xs = [])"
| "pack2_rule xs (v # ps) =
     (xs \<noteq> [] \<and>
      (if 15 \<le> length xs \<and> list_all (\<lambda>x. \<not> x > 3) (take 15 xs)
       then \<not> bit v 30 \<and> unpack_2bit v = take 15 xs \<and> (bit v 31 \<longleftrightarrow> length xs = 15) \<and>
            pack2_rule (drop 15 xs) ps
       else bit v 30 \<and> unpack_5bit v = take 6 xs @ replicate (6 - length xs) 31 \<and>
            (bit v 31 \<longleftrightarrow> length xs \<le> 6) \<and> pack2_rule (drop 6 xs) ps))"

lemma pack2_packet_eq:
  assumes "n < length dsq" "r \<le> n" "d < r \<or> d = next_degen dsq n r"
  shows "pack2_packet dsq n d r =
     (next_degen dsq n r,
      if 15 \<le> n + 1 - r \<and> (\<forall>j<15. \<not> dsq ! (r + j) > 3)
      then (r + 15, if r + 15 > n then or2 28 (take 15 (drop r dsq)) OR push_bit 31 1
                    else or2 28 (take 15 (drop r dsq)))
      else (r + min 6 (n + 1 - r),
            if r + min 6 (n + 1 - r) > n
            then push_bit 30 1 OR payload5 (take (min 6 (n + 1 - r)) (drop r dsq)) OR push_bit 31 1
            else push_bit 30 1 OR payload5 (take (min 6 (n + 1 - r)) (drop r dsq))))"
proof -
  have d': "(if d < r then next_degen dsq n r else d) = next_degen dsq n r"
    using assms(3) by auto
  show ?thesis
  proof (cases "15 \<le> n + 1 - r")
    case False
    with assms(2) have c: "\<not> (n - r + 1 \<ge> 15 \<and> next_degen dsq n r > r + 14)" by arith
    show ?thesis
      unfolding pack2_packet_def d' Let_def
      using False c pack5_body_eq [OF assms(1,2), of "push_bit 30 1"]
      by (auto simp: or.assoc split: prod.splits)
  next
    case True
    with assms(2) have w: "r + 14 \<le> n" by simp
    have ge: "n - r + 1 \<ge> 15" using True assms(2) by simp
    show ?thesis
    proof (cases "\<forall>j<15. \<not> dsq ! (r + j) > 3")
      case all: True
      then have nd: "next_degen dsq n r > r + 14"
        using next_degen_window [OF w] by simp
      have fill: "pack2_fill dsq 28 r 0 = (r + 15, or2 28 (take 15 (drop r dsq)))"
        using pack2_fill_eq [of r 15 dsq 0] w assms(1) by simp
      show ?thesis
        unfolding pack2_packet_def d' Let_def
        using True all nd ge fill by simp
    next
      case nall: False
      then have nd: "\<not> next_degen dsq n r > r + 14"
        using next_degen_window [OF w] by simp
      show ?thesis
        unfolding pack2_packet_def d' Let_def
        using nall nd pack5_body_eq [OF assms(1,2), of "push_bit 30 1"]
        by (auto simp: or.assoc split: prod.splits)
    qed
  qed
qed

lemma dsqdata_pack2_loop_done: "n < r \<Longrightarrow> dsqdata_pack2_loop dsq n d r psq = psq"
  by (subst dsqdata_pack2_loop.simps) simp


lemma dsqdata_pack2_loop_rule:
  assumes len: "n < length dsq" and res: "\<And>i. 1 \<le> i \<Longrightarrow> i \<le> n \<Longrightarrow> dsq ! i \<le> 30"
  shows "1 \<le> r \<Longrightarrow> r \<le> n + 1 \<Longrightarrow> d < r \<or> d = next_degen dsq n r \<Longrightarrow>
         \<exists>ps. dsqdata_pack2_loop dsq n d r psq = psq @ ps \<and>
              pack2_rule (take (n + 1 - r) (drop r dsq)) ps"
  using len res
proof (induction dsq n d r psq rule: dsqdata_pack2_loop.induct)
  case (1 dsq n d r psq)
  note len = "1.prems"(4) and res = "1.prems"(5)
  show ?case
  proof (cases "r \<le> n")
    case False
    with "1.prems"(2) have "n + 1 - r = 0" by simp
    with False show ?thesis by (simp add: dsqdata_pack2_loop_done)
  next
    case True
    define xs where "xs = take (n + 1 - r) (drop r dsq)"
    define pk where "pk = pack2_packet dsq n d r"
    define d' where "d' = fst pk"
    define r' where "r' = fst (snd pk)"
    define v where "v = snd (snd pk)"
    have lxs: "length xs = n + 1 - r" using len True unfolding xs_def by simp
    have xs_nth: "xs ! j = dsq ! (r + j)" if "j < n + 1 - r" for j
      using that len True unfolding xs_def by simp
    have xs_ne: "xs \<noteq> []" using lxs True by auto
    have pk_eq: "pk = (next_degen dsq n r,
      if 15 \<le> n + 1 - r \<and> (\<forall>j<15. \<not> dsq ! (r + j) > 3)
      then (r + 15, if r + 15 > n then or2 28 (take 15 (drop r dsq)) OR push_bit 31 1
                    else or2 28 (take 15 (drop r dsq)))
      else (r + min 6 (n + 1 - r),
            if r + min 6 (n + 1 - r) > n
            then push_bit 30 1 OR payload5 (take (min 6 (n + 1 - r)) (drop r dsq)) OR push_bit 31 1
            else push_bit 30 1 OR payload5 (take (min 6 (n + 1 - r)) (drop r dsq))))"
      unfolding pk_def by (rule pack2_packet_eq [OF len True "1.prems"(3)])
    have d'_eq: "d' = next_degen dsq n r" unfolding d'_def pk_eq by simp
    have unfold: "dsqdata_pack2_loop dsq n d r psq = dsqdata_pack2_loop dsq n d' r' (psq @ [v])"
      using True unfolding d'_def r'_def v_def pk_def by (subst dsqdata_pack2_loop.simps) simp
    have step: "r < r' \<and> r' \<le> n + 1 \<and> take (n + 1 - r') (drop r' dsq) = drop (r' - r) xs \<and>
      (if 15 \<le> length xs \<and> list_all (\<lambda>x. \<not> x > 3) (take 15 xs)
       then r' - r = 15 \<and> \<not> bit v 30 \<and> unpack_2bit v = take 15 xs \<and> (bit v 31 \<longleftrightarrow> length xs = 15)
       else (r' - r = 6 \<or> r' = n + 1 \<and> length xs \<le> 6) \<and> bit v 30 \<and>
            unpack_5bit v = take 6 xs @ replicate (6 - length xs) 31 \<and>
            (bit v 31 \<longleftrightarrow> length xs \<le> 6))"
    proof (cases "15 \<le> n + 1 - r \<and> (\<forall>j<15. \<not> dsq ! (r + j) > 3)")
      case two: True
      define ys where "ys = take 15 (drop r dsq)"
      have ys_xs: "take 15 xs = ys" using two unfolding xs_def ys_def by (simp add: min_def)
      have room: "15 \<le> length dsq - r" using two len by arith
      have lys: "length ys = 15" using room unfolding ys_def by simp
      have ys_nth: "ys ! j = dsq ! (r + j)" if "j < 15" for j
        using that room unfolding ys_def by simp
      have ys3: "\<forall>x\<in>set ys. x \<le> 3"
      proof
        fix x assume "x \<in> set ys"
        then obtain j where "j < 15" "x = ys ! j" using lys by (metis in_set_conv_nth)
        with ys_nth two show "x \<le> 3" by (simp add: not_less)
      qed
      have cond: "15 \<le> length xs \<and> list_all (\<lambda>x. \<not> x > 3) (take 15 xs)"
        using two ys3 unfolding ys_xs lxs list_all_iff by (auto simp: not_less)
      have r'_eq: "r' = r + 15" unfolding r'_def pk_eq using two by simp
      have v_eq: "v = (if r + 15 > n then or2 28 ys OR push_bit 31 1 else or2 28 ys)"
        unfolding v_def pk_eq ys_def using two by simp
      have nb: "\<not> bit (or2 28 ys) i" if "30 \<le> i" for i
        using bit_or2 [OF ys3, of 28 i] that by auto
      have b30: "\<not> bit v 30"
        unfolding v_eq using nb [of 30] by (simp add: bit_simps bit_flag31 del: push_bit_of_1)
      have b31: "bit v 31 \<longleftrightarrow> length xs = 15"
        unfolding v_eq lxs using nb [of 31] two
        by (auto simp add: bit_simps bit_flag31 simp del: push_bit_of_1)
      have up: "unpack_2bit v = take 15 xs"
        unfolding v_eq ys_xs using unpack_2bit_or2 [OF lys ys3] by simp
      have rest: "take (n + 1 - r') (drop r' dsq) = drop (r' - r) xs"
        unfolding r'_eq xs_def by (simp add: drop_take ac_simps)
      have "r' \<le> n + 1" unfolding r'_eq using two True by arith
      then show ?thesis using cond r'_eq b30 b31 up rest by simp
    next
      case five: False
      define m where "m = min 6 (n + 1 - r)"
      define ys where "ys = take m (drop r dsq)"
      have ys_xs: "take 6 xs = ys" unfolding xs_def ys_def m_def by simp
      have lys: "length ys = m" using len True unfolding ys_def m_def by simp
      have lys6: "length ys \<le> 6" unfolding lys m_def by simp
      have ys30: "\<forall>x\<in>set ys. x \<le> 30"
      proof
        fix x assume "x \<in> set ys"
        then obtain j where j: "j < m" "x = ys ! j" using lys by (metis in_set_conv_nth)
        then have "x = dsq ! (r + j)" using len True unfolding ys_def m_def by simp
        moreover have "1 \<le> r + j" "r + j \<le> n" using j(1) "1.prems"(1) True unfolding m_def by auto
        ultimately show "x \<le> 30" using res by simp
      qed
      have ncond: "\<not> (15 \<le> length xs \<and> list_all (\<lambda>x. \<not> x > 3) (take 15 xs))"
      proof
        assume a: "15 \<le> length xs \<and> list_all (\<lambda>x. \<not> x > 3) (take 15 xs)"
        then have l15: "15 \<le> n + 1 - r" using lxs by simp
        have "\<not> dsq ! (r + j) > 3" if "j < 15" for j
        proof -
          from that a have "take 15 xs ! j \<in> set (take 15 xs)" by (intro nth_mem) simp
          with a have "\<not> take 15 xs ! j > 3" unfolding list_all_iff by blast
          with that l15 xs_nth [of j] show ?thesis by simp
        qed
        with l15 five show False by blast
      qed
      have r'_eq: "r' = r + m" unfolding r'_def pk_eq m_def using five by auto
      have v_eq: "v = (if r + m > n then push_bit 30 1 OR payload5 ys OR push_bit 31 1
                       else push_bit 30 1 OR payload5 ys)"
        unfolding v_def pk_eq ys_def m_def using five by auto
      have b30: "bit v 30"
        unfolding v_eq by (simp add: bit_simps bit_flag30 del: push_bit_of_1)
      have b31: "bit v 31 \<longleftrightarrow> length xs \<le> 6"
        unfolding v_eq lxs using payload5_bit [OF ys30, of 31] True
        by (auto simp add: bit_simps bit_flag30 bit_flag31 m_def simp del: push_bit_of_1)
      have pad: "6 - length ys = 6 - length xs" unfolding lys lxs m_def by simp
      have up: "unpack_5bit v = take 6 xs @ replicate (6 - length xs) 31"
        unfolding v_eq ys_xs using unpack_5bit_payload5 [OF lys6 ys30] pad by simp
      have rest: "take (n + 1 - r') (drop r' dsq) = drop (r' - r) xs"
        unfolding r'_eq xs_def m_def by (simp add: drop_take ac_simps min_def)
      have adv: "r' - r = 6 \<or> r' = n + 1 \<and> length xs \<le> 6"
        unfolding r'_eq lxs m_def using True by (auto simp: min_def)
      have "r < r'" "r' \<le> n + 1" unfolding r'_eq m_def using True by (auto simp: min_def)
      then show ?thesis using ncond adv b30 b31 up rest by simp
    qed
    have inv': "d' < r' \<or> d' = next_degen dsq n r'"
    proof (cases "d' < r'")
      case False
      then have "r' \<le> next_degen dsq n r" unfolding d'_eq by simp
      moreover have "r \<le> r'" using step by simp
      ultimately have "next_degen dsq n r' = next_degen dsq n r" by (rule next_degen_shift [rotated])
      then show ?thesis unfolding d'_eq by simp
    qed simp
    have "\<exists>ps. dsqdata_pack2_loop dsq n d' r' (psq @ [v]) = (psq @ [v]) @ ps \<and>
              pack2_rule (take (n + 1 - r') (drop r' dsq)) ps"
      unfolding d'_def r'_def v_def pk_def
    proof (rule "1.IH" [OF True])
      show "1 \<le> fst (snd (pack2_packet dsq n d r))"
        using step "1.prems"(1) unfolding r'_def pk_def by simp
      show "fst (snd (pack2_packet dsq n d r)) \<le> n + 1"
        using step unfolding r'_def pk_def by simp
      show "fst (pack2_packet dsq n d r) < fst (snd (pack2_packet dsq n d r)) \<or>
            fst (pack2_packet dsq n d r) = next_degen dsq n (fst (snd (pack2_packet dsq n d r)))"
        using inv' unfolding d'_def r'_def pk_def .
      show "n < length dsq" by (rule len)
      show "\<And>i. 1 \<le> i \<Longrightarrow> i \<le> n \<Longrightarrow> dsq ! i \<le> 30" by (rule res)
    qed
    then obtain ps where ps: "dsqdata_pack2_loop dsq n d' r' (psq @ [v]) = (psq @ [v]) @ ps"
      "pack2_rule (drop (r' - r) xs) ps" using step by auto
    have R: "pack2_rule xs (v # ps)"
    proof (cases "15 \<le> length xs \<and> list_all (\<lambda>x. \<not> x > 3) (take 15 xs)")
      case True
      with step have f: "r' - r = 15" "\<not> bit v 30" "unpack_2bit v = take 15 xs"
        "bit v 31 \<longleftrightarrow> length xs = 15"
        by simp_all
      from f(1) ps(2) have "pack2_rule (drop 15 xs) ps" by simp
      with True f(2-4) xs_ne show ?thesis by simp
    next
      case False
      with step have f: "r' - r = 6 \<or> r' = n + 1 \<and> length xs \<le> 6" "bit v 30"
        "unpack_5bit v = take 6 xs @ replicate (6 - length xs) 31" "bit v 31 \<longleftrightarrow> length xs \<le> 6"
        by simp_all
      from f(1) have "drop (r' - r) xs = drop 6 xs"
        using lxs by auto
      with ps(2) have "pack2_rule (drop 6 xs) ps" by simp
      with False f(2-4) xs_ne show ?thesis by simp
    qed
    show ?thesis
    proof (intro exI conjI)
      show "dsqdata_pack2_loop dsq n d r psq = psq @ (v # ps)"
        unfolding unfold ps(1) by simp
      show "pack2_rule (take (n + 1 - r) (drop r dsq)) (v # ps)"
        using R unfolding xs_def .
    qed
  qed
qed

section \<open>The packing rule of \<^verbatim>\<open>dsqdata_pack2\<close>\<close>

text \<open>
  Claim C3. For a digital sequence of \<open>n\<close> residues (codes in \<open>0..30\<close>, at \<open>dsq[1..n]\<close>), the
  packets that \<^verbatim>\<open>dsqdata_pack2\<close> emits follow \<open>pack2_rule\<close>: at each step a full 2-bit packet
  for the next 15 residues if and only if at least 15 remain and none of them has a code
  above 3, otherwise a 5-bit packet for up to six residues padded with code 31, and bit 31
  exactly on the packet that consumes the last residue. The sliding detector \<open>d\<close> of the
  code decides the same as looking at the next 15 residues.
\<close>

theorem pack2_follows_rule:
  assumes "n < length dsq" and "list_all (\<lambda>x. x \<le> 30) (take n (drop 1 dsq))"
  shows "pack2_rule (take n (drop 1 dsq)) (dsqdata_pack2 dsq n)"
proof -
  have res: "dsq ! i \<le> 30" if "1 \<le> i" "i \<le> n" for i
  proof -
    from that assms(1) have "dsq ! i = take n (drop 1 dsq) ! (i - 1)" by simp
    moreover from that assms(1) have "i - 1 < length (take n (drop 1 dsq))" by simp
    ultimately show ?thesis using assms(2) unfolding list_all_iff by (metis nth_mem)
  qed
  have "\<exists>ps. dsqdata_pack2_loop dsq n 0 1 [] = [] @ ps \<and>
              pack2_rule (take (n + 1 - 1) (drop 1 dsq)) ps"
    by (rule dsqdata_pack2_loop_rule [OF assms(1) res]) simp_all
  then show ?thesis by (simp add: dsqdata_pack2_def)
qed

lemmas pack2_eval = dsqdata_pack2_def dsqdata_pack2_loop.simps pack2_packet_def pack5_fill.simps
  pack5_pad.simps pack2_fill.simps next_degen.simps Let_def

text \<open>
  The theorem at fifteen canonical residues followed by one degenerate residue: a 2-bit
  packet, then a 5-bit packet with the end-of-data bit.
\<close>

theorem pack2_follows_rule_witness:
  "16 < length [255, 0, 1, 2, 3, 0, 1, 2, 3, 0, 1, 2, 3, 0, 1, 2, 15, 255 :: ESL_DSQ] \<and>
   list_all (\<lambda>x. x \<le> 30)
     (take 16 (drop 1 [255, 0, 1, 2, 3, 0, 1, 2, 3, 0, 1, 2, 3, 0, 1, 2, 15, 255 :: ESL_DSQ])) \<and>
   pack2_rule [0, 1, 2, 3, 0, 1, 2, 3, 0, 1, 2, 3, 0, 1, 2, 15]
     (dsqdata_pack2 [255, 0, 1, 2, 3, 0, 1, 2, 3, 0, 1, 2, 3, 0, 1, 2, 15, 255] 16) \<and>
   dsqdata_pack2 [255, 0, 1, 2, 3, 0, 1, 2, 3, 0, 1, 2, 3, 0, 1, 2, 15, 255] 16
     = [0x06C6C6C6, 0xDFFFFFFF]"
  using pack2_follows_rule [of 16 "[255, 0, 1, 2, 3, 0, 1, 2, 3, 0, 1, 2, 3, 0, 1, 2, 15, 255]"]
  by (simp add: pack2_eval)

section \<open>The loader's chunk boundary (\<^verbatim>\<open>dsqdata_loader_thread\<close>)\<close>

text \<open>
  An index record holds two \<^verbatim>\<open>int64_t\<close> end offsets, and \<open>psq_last\<close> is an \<^verbatim>\<open>int64_t\<close>; the
  values of these variables are modelled as integers, and the machine arithmetic on them is
  written out. \<open>to_int64 x\<close> is the \<^verbatim>\<open>int64_t\<close> that two's complement arithmetic gives for
  the exact result \<open>x\<close>; \<open>to_int32 x\<close> is the \<^verbatim>\<open>int\<close> that the conversion of \<open>x\<close> to \<^verbatim>\<open>int\<close> gives
  (the low 32 bits). Both are the identity on the values the type can hold.
\<close>

record ESL_DSQDATA_RECORD =
  psq_end :: int
  metadata_end :: int

definition to_int64 :: "int \<Rightarrow> int" where
  "to_int64 x = (x + 2 ^ 63) mod 2 ^ 64 - 2 ^ 63"

definition to_int32 :: "int \<Rightarrow> int" where
  "to_int32 x = (x + 2 ^ 31) mod 2 ^ 32 - 2 ^ 31"

text \<open>
  The expression \<^verbatim>\<open>idx[k].psq_end - psq_last\<close>, computed in \<^verbatim>\<open>int64_t\<close>. (Where the exact
  difference does not fit the C standard leaves the result open; the model takes the
  wrapped value.) In the comparisons with \<^verbatim>\<open>dd->chunk_maxpacket\<close>, an \<^verbatim>\<open>int\<close>, the latter is
  converted to \<^verbatim>\<open>int64_t\<close>, which keeps its value.
\<close>

definition psq_diff :: "ESL_DSQDATA_RECORD \<Rightarrow> int \<Rightarrow> int" where
  "psq_diff rec psq_last = to_int64 (psq_end rec - psq_last)"

text \<open>
  The binary search of the loader:
  \<^verbatim>\<open>while (righti - nload > 1) { mid = nload + (righti - nload) / 2;
       if (idx[mid-1].psq_end - psq_last <= dd->chunk_maxpacket) nload = mid;
       else righti = mid; }\<close>
\<close>

function nload_search :: "ESL_DSQDATA_RECORD list \<Rightarrow> int \<Rightarrow> int \<Rightarrow> nat \<Rightarrow> nat \<Rightarrow> nat" where
  "nload_search idx psq_last chunk_maxpacket nload righti =
     (if righti - nload > 1
      then (let mid = nload + (righti - nload) div 2 in
            if psq_diff (idx ! (mid - 1)) psq_last \<le> chunk_maxpacket
            then nload_search idx psq_last chunk_maxpacket mid righti
            else nload_search idx psq_last chunk_maxpacket nload mid)
      else nload)"
  by pat_completeness auto
termination
  by (relation "measure (\<lambda>(idx, psq_last, chunk_maxpacket, nload, righti). righti - nload)") auto

declare nload_search.simps [simp del]

text \<open>
  The number of sequences to load, \<open>nload\<close>: all \<open>nidx\<close> staged records when the last one
  fits, the result of the binary search otherwise.
\<close>

definition loader_nload :: "ESL_DSQDATA_RECORD list \<Rightarrow> nat \<Rightarrow> int \<Rightarrow> int \<Rightarrow> nat" where
  "loader_nload idx nidx psq_last chunk_maxpacket =
     (if psq_diff (idx ! (nidx - 1)) psq_last \<le> chunk_maxpacket
      then nidx
      else nload_search idx psq_last chunk_maxpacket 1 nidx)"

text \<open>
  The fields \<open>pn\<close> and \<open>N\<close> of the chunk the loader emits for these records.
  \<^verbatim>\<open>chu->pn = idx[nload-1].psq_end - psq_last;\<close> stores the \<^verbatim>\<open>int64_t\<close> difference into
  \<open>pn\<close>, an \<^verbatim>\<open>int\<close>: the loader passes it to \<^verbatim>\<open>%d\<close> and compares it with its \<^verbatim>\<open>int nread\<close>
  (the header that declares the chunk is not among the sources).
\<close>

definition loader_pn :: "ESL_DSQDATA_RECORD list \<Rightarrow> nat \<Rightarrow> int \<Rightarrow> int \<Rightarrow> int" where
  "loader_pn idx nidx psq_last chunk_maxpacket =
     to_int32 (psq_diff (idx ! (loader_nload idx nidx psq_last chunk_maxpacket - 1)) psq_last)"

definition loader_N :: "ESL_DSQDATA_RECORD list \<Rightarrow> nat \<Rightarrow> int \<Rightarrow> int \<Rightarrow> nat" where
  "loader_N idx nidx psq_last chunk_maxpacket = loader_nload idx nidx psq_last chunk_maxpacket"

lemma to_int64_id: "- (2 ^ 63) \<le> x \<Longrightarrow> x < 2 ^ 63 \<Longrightarrow> to_int64 x = x"
  by (simp add: to_int64_def)

lemma to_int32_id: "- (2 ^ 31) \<le> x \<Longrightarrow> x < 2 ^ 31 \<Longrightarrow> to_int32 x = x"
  by (simp add: to_int32_def)

lemma nload_search_bounds:
  assumes "1 \<le> lo" "lo < hi" "hi \<le> nidx"
    and "psq_diff (idx ! (lo - 1)) psq_last \<le> mx"
    and "\<not> psq_diff (idx ! (hi - 1)) psq_last \<le> mx"
  shows "lo \<le> nload_search idx psq_last mx lo hi \<and> nload_search idx psq_last mx lo hi < hi \<and>
         psq_diff (idx ! (nload_search idx psq_last mx lo hi - 1)) psq_last \<le> mx \<and>
         \<not> psq_diff (idx ! (nload_search idx psq_last mx lo hi)) psq_last \<le> mx"
  using assms
proof (induction idx psq_last mx lo hi rule: nload_search.induct)
  case (1 idx psq_last mx lo hi)
  show ?case
  proof (cases "hi - lo > 1")
    case False
    with "1.prems" have "hi = lo + 1" by simp
    moreover have "nload_search idx psq_last mx lo hi = lo"
      using False by (subst nload_search.simps) simp
    ultimately show ?thesis using "1.prems" by simp
  next
    case True
    define mid where "mid = lo + (hi - lo) div 2"
    have m: "lo < mid" "mid < hi" using True unfolding mid_def by simp_all
    show ?thesis
    proof (cases "psq_diff (idx ! (mid - 1)) psq_last \<le> mx")
      case fits: True
      have eq: "nload_search idx psq_last mx lo hi = nload_search idx psq_last mx mid hi"
        using True fits unfolding mid_def by (subst nload_search.simps) (simp add: Let_def)
      have "mid \<le> nload_search idx psq_last mx mid hi \<and> nload_search idx psq_last mx mid hi < hi \<and>
         psq_diff (idx ! (nload_search idx psq_last mx mid hi - 1)) psq_last \<le> mx \<and>
         \<not> psq_diff (idx ! (nload_search idx psq_last mx mid hi)) psq_last \<le> mx"
        using m "1.prems" fits by (intro "1.IH"(1) [OF True mid_def fits]) simp_all
      then show ?thesis unfolding eq using m by simp
    next
      case nofit: False
      have eq: "nload_search idx psq_last mx lo hi = nload_search idx psq_last mx lo mid"
        using True nofit unfolding mid_def by (subst nload_search.simps) (simp add: Let_def)
      have "lo \<le> nload_search idx psq_last mx lo mid \<and> nload_search idx psq_last mx lo mid < mid \<and>
         psq_diff (idx ! (nload_search idx psq_last mx lo mid - 1)) psq_last \<le> mx \<and>
         \<not> psq_diff (idx ! (nload_search idx psq_last mx lo mid)) psq_last \<le> mx"
        using m "1.prems" nofit by (intro "1.IH"(2) [OF True mid_def nofit]) simp_all
      then show ?thesis unfolding eq using m by simp
    qed
  qed
qed

text \<open>
  Claim C5, with the ranges in which the machine arithmetic of the loader is exact. There
  are \<open>nidx \<ge> 1\<close> staged records (at most \<open>chunk_maxseq\<close>, the size of the staging buffer) whose
  \<open>psq_end\<close> fields are nondecreasing, \<open>psq_last\<close> is not above the first of them (it is the
  \<open>psq_end\<close> of the record before), the difference between the last \<open>psq_end\<close> and \<open>psq_last\<close>
  is below \<open>2\<^sup>6\<^sup>3\<close>, \<open>chunk_maxpacket\<close> is a value of an \<^verbatim>\<open>int\<close>, and the first record fits. Then
  the computed \<open>nload\<close> is the largest \<open>i\<close> in \<open>1..nidx\<close> with
  \<open>idx[i-1].psq_end - psq_last \<le> chunk_maxpacket\<close>; the emitted chunk has
  \<open>pn = idx[nload-1].psq_end - psq_last \<le> chunk_maxpacket\<close> and \<open>N = nload \<le> chunk_maxseq\<close>,
  differences and comparisons being those of the integers.
\<close>

theorem loader_nload_largest_prefix:
  assumes "1 \<le> nidx" and "nidx \<le> chunk_maxseq" and "length idx = chunk_maxseq"
    and "sorted (map psq_end (take nidx idx))"
    and "psq_last \<le> psq_end (idx ! 0)"
    and "psq_end (idx ! (nidx - 1)) - psq_last < 2 ^ 63"
    and "chunk_maxpacket < 2 ^ 31"
    and "psq_end (idx ! 0) - psq_last \<le> chunk_maxpacket"
  shows "loader_nload idx nidx psq_last chunk_maxpacket
           = Max {i. 1 \<le> i \<and> i \<le> nidx \<and> psq_end (idx ! (i - 1)) - psq_last \<le> chunk_maxpacket} \<and>
         loader_pn idx nidx psq_last chunk_maxpacket
           = psq_end (idx ! (loader_nload idx nidx psq_last chunk_maxpacket - 1)) - psq_last \<and>
         loader_pn idx nidx psq_last chunk_maxpacket \<le> chunk_maxpacket \<and>
         loader_N idx nidx psq_last chunk_maxpacket = loader_nload idx nidx psq_last chunk_maxpacket \<and>
         loader_N idx nidx psq_last chunk_maxpacket \<le> chunk_maxseq"
proof -
  let ?d = "\<lambda>i. psq_end (idx ! (i - 1)) - psq_last"
  let ?fits = "\<lambda>i. ?d i \<le> chunk_maxpacket"
  let ?S = "{i. 1 \<le> i \<and> i \<le> nidx \<and> ?fits i}"
  let ?n = "loader_nload idx nidx psq_last chunk_maxpacket"
  have fin: "finite ?S" by simp
  have mono: "psq_end (idx ! i) \<le> psq_end (idx ! j)" if "i \<le> j" "j < nidx" for i j
  proof -
    from that assms(2,3) have "map psq_end (take nidx idx) ! i \<le> map psq_end (take nidx idx) ! j"
      by (intro sorted_nth_mono [OF assms(4)]) simp_all
    with that assms(2,3) show ?thesis by simp
  qed
  have rng: "0 \<le> ?d i \<and> ?d i < 2 ^ 63" if "1 \<le> i" "i \<le> nidx" for i
  proof -
    have "psq_end (idx ! 0) \<le> psq_end (idx ! (i - 1))" using that by (intro mono) simp_all
    moreover have "psq_end (idx ! (i - 1)) \<le> psq_end (idx ! (nidx - 1))"
      using that by (intro mono) simp_all
    ultimately show ?thesis using assms(5,6) by simp
  qed
  have exact: "psq_diff (idx ! (i - 1)) psq_last = ?d i" if "1 \<le> i" "i \<le> nidx" for i
    unfolding psq_diff_def using rng [OF that] by (intro to_int64_id) simp_all
  have first: "psq_diff (idx ! (1 - 1)) psq_last \<le> chunk_maxpacket"
    using exact [of 1] assms(1,8) by simp
  have key: "1 \<le> ?n \<and> ?n \<le> nidx \<and> ?fits ?n \<and> (\<forall>i\<in>?S. i \<le> ?n)"
  proof (cases "?fits nidx")
    case True
    then have "?n = nidx" using exact [of nidx] assms(1) by (simp add: loader_nload_def)
    with True assms(1) show ?thesis by simp
  next
    case False
    then have nf: "\<not> psq_diff (idx ! (nidx - 1)) psq_last \<le> chunk_maxpacket"
      using exact [of nidx] assms(1) by simp
    then have eq: "?n = nload_search idx psq_last chunk_maxpacket 1 nidx"
      by (simp add: loader_nload_def)
    from False assms(8) have "nidx \<noteq> 1" by auto
    with assms(1) have lt: "1 < nidx" by simp
    have b: "1 \<le> ?n \<and> ?n < nidx \<and> psq_diff (idx ! (?n - 1)) psq_last \<le> chunk_maxpacket \<and>
             \<not> psq_diff (idx ! ?n) psq_last \<le> chunk_maxpacket"
      unfolding eq using first nf lt
      by (intro nload_search_bounds [where nidx = nidx]) simp_all
    then have b1: "?fits ?n" using exact [of ?n] by simp
    from b have b2: "\<not> psq_end (idx ! ?n) - psq_last \<le> chunk_maxpacket"
      using exact [of "Suc ?n"] by simp
    have "i \<le> ?n" if "i \<in> ?S" for i
    proof (rule ccontr)
      assume "\<not> i \<le> ?n"
      then have "?n \<le> i - 1" "i - 1 < nidx" using that b by auto
      then have "psq_end (idx ! ?n) \<le> psq_end (idx ! (i - 1))" by (rule mono)
      with that b2 show False by simp
    qed
    with b b1 show ?thesis by simp
  qed
  then have "?n \<in> ?S" by simp
  with key fin have mx: "Max ?S = ?n" by (intro Max_eqI) auto
  have pn: "loader_pn idx nidx psq_last chunk_maxpacket = ?d ?n"
  proof -
    from key have n: "1 \<le> ?n" "?n \<le> nidx" "?d ?n \<le> chunk_maxpacket" by simp_all
    from rng [OF n(1,2)] n(3) assms(7) have "- (2 ^ 31) \<le> ?d ?n" "?d ?n < 2 ^ 31" by simp_all
    then have "to_int32 (?d ?n) = ?d ?n" by (rule to_int32_id)
    then show ?thesis unfolding loader_pn_def exact [OF n(1,2)] .
  qed
  show ?thesis
    using key mx pn assms(2) by (simp add: loader_N_def)
qed

text \<open>
  The theorem at four staged records with \<open>psq_end\<close> 2, 5, 9, 14, \<open>psq_last = -1\<close> and
  \<open>chunk_maxpacket = 8\<close>: the binary search finds \<open>nload = 2\<close>, with \<open>pn = 6\<close>.
\<close>

theorem loader_nload_largest_prefix_witness:
  "loader_nload [\<lparr>psq_end = 2, metadata_end = 10\<rparr>, \<lparr>psq_end = 5, metadata_end = 20\<rparr>,
           \<lparr>psq_end = 9, metadata_end = 30\<rparr>, \<lparr>psq_end = 14, metadata_end = 40\<rparr>] 4 (- 1) 8 = 2 \<and>
   Max {i. 1 \<le> i \<and> i \<le> 4 \<and>
        psq_end ([\<lparr>psq_end = 2, metadata_end = 10\<rparr>, \<lparr>psq_end = 5, metadata_end = 20\<rparr>,
           \<lparr>psq_end = 9, metadata_end = 30\<rparr>, \<lparr>psq_end = 14, metadata_end = 40\<rparr>] ! (i - 1)) - (- 1) \<le> 8} = 2 \<and>
   loader_pn [\<lparr>psq_end = 2, metadata_end = 10\<rparr>, \<lparr>psq_end = 5, metadata_end = 20\<rparr>,
           \<lparr>psq_end = 9, metadata_end = 30\<rparr>, \<lparr>psq_end = 14, metadata_end = 40\<rparr>] 4 (- 1) 8 = 6 \<and>
   loader_N [\<lparr>psq_end = 2, metadata_end = 10\<rparr>, \<lparr>psq_end = 5, metadata_end = 20\<rparr>,
           \<lparr>psq_end = 9, metadata_end = 30\<rparr>, \<lparr>psq_end = 14, metadata_end = 40\<rparr>] 4 (- 1) 8 \<le> 4"
proof -
  let ?idx = "[\<lparr>psq_end = 2, metadata_end = 10\<rparr>, \<lparr>psq_end = 5, metadata_end = 20\<rparr>,
           \<lparr>psq_end = 9, metadata_end = 30\<rparr>, \<lparr>psq_end = 14, metadata_end = 40\<rparr>]"
  have h: "(1::nat) \<le> 4" "(4::nat) \<le> 4" "length ?idx = 4"
    "sorted (map psq_end (take 4 ?idx))" "(- 1 :: int) \<le> psq_end (?idx ! 0)"
    "psq_end (?idx ! (4 - 1)) - (- 1) < 2 ^ 63" "(8 :: int) < 2 ^ 31"
    "psq_end (?idx ! 0) - (- 1) \<le> 8"
    by simp_all
  note th = loader_nload_largest_prefix [OF h]
  have v: "loader_nload ?idx 4 (- 1) 8 = 2"
    by (simp add: loader_nload_def nload_search.simps Let_def psq_diff_def to_int64_def)
  have p: "loader_pn ?idx 4 (- 1) 8 = 6"
    unfolding loader_pn_def v by (simp add: psq_diff_def to_int64_def to_int32_def)
  have m: "Max {i. 1 \<le> i \<and> i \<le> 4 \<and> psq_end (?idx ! (i - 1)) - (- 1) \<le> 8} = 2"
    unfolding th [THEN conjunct1, symmetric] by (rule v)
  from th have n: "loader_N ?idx 4 (- 1) 8 \<le> 4" by (elim conjE)
  show ?thesis using v m p n by (intro conjI)
qed

text \<open>
  Claim C5 as the specification words it has no bound that ties \<open>psq_last\<close> to the staged
  records. One staged record with \<open>psq_end = -2147483650\<close>, at \<open>psq_last = -1\<close> and
  \<open>chunk_maxpacket = 8\<close>: the records are nondecreasing and the first one fits, its difference
  being \<open>-2147483649 \<le> 8\<close>, and \<open>nload = 1\<close> is the largest fitting prefix. The difference does
  not fit the \<^verbatim>\<open>int\<close> field \<open>pn\<close>: the chunk is emitted with \<open>pn = 2147483647\<close>, which is neither
  the difference nor at most \<open>chunk_maxpacket\<close>.
\<close>

theorem loader_pn_counterexample:
  "sorted (map psq_end (take 1 [\<lparr>psq_end = - 2147483650, metadata_end = 0\<rparr>])) \<and>
   psq_diff ([\<lparr>psq_end = - 2147483650, metadata_end = 0\<rparr>] ! 0) (- 1) = - 2147483649 \<and>
   psq_diff ([\<lparr>psq_end = - 2147483650, metadata_end = 0\<rparr>] ! 0) (- 1) \<le> 8 \<and>
   loader_nload [\<lparr>psq_end = - 2147483650, metadata_end = 0\<rparr>] 1 (- 1) 8 = 1 \<and>
   loader_pn [\<lparr>psq_end = - 2147483650, metadata_end = 0\<rparr>] 1 (- 1) 8 = 2147483647 \<and>
   loader_pn [\<lparr>psq_end = - 2147483650, metadata_end = 0\<rparr>] 1 (- 1) 8
     \<noteq> psq_end ([\<lparr>psq_end = - 2147483650, metadata_end = 0\<rparr>] ! 0) - (- 1) \<and>
   \<not> loader_pn [\<lparr>psq_end = - 2147483650, metadata_end = 0\<rparr>] 1 (- 1) 8 \<le> 8"
  by (simp add: loader_pn_def loader_nload_def psq_diff_def to_int64_def to_int32_def)

section \<open>Chunks and \<^verbatim>\<open>dsqdata_unpack_chunk\<close>\<close>

text \<open>
  Modelled from the spec: the sentinel residue code \<^verbatim>\<open>eslDSQ_SENTINEL\<close> is declared in
  \<^verbatim>\<open>esl_alphabet.h\<close>, which is not among the sources; the specification only says that the
  alphabet provides a sentinel residue code. It is the byte 255, outside the 5-bit codes.
\<close>

definition eslDSQ_SENTINEL :: ESL_DSQ where
  "eslDSQ_SENTINEL = 255"

text \<open>
  How the routine can end other than by returning \<^verbatim>\<open>eslOK\<close>: the thrown \<^verbatim>\<open>eslEFORMAT\<close>; an
  access outside an allocation, which the C code does not check (undefined behaviour,
  kept apart as an outcome of its own); and a failed \<^verbatim>\<open>ESL_DASSERT1\<close> in a build that
  compiles the debugging assertions in.
\<close>

datatype failure = eslEFORMAT | OutOfBounds | AssertionFailed

text \<open>
  \<^verbatim>\<open>ESL_DSQDATA_CHUNK\<close>. Pointers into \<open>smem\<close> and \<open>metadata\<close> are byte offsets into these
  buffers: \<open>dsq[i]\<close> is an offset into \<open>smem\<close>; \<open>name[i]\<close>, \<open>acc[i]\<close>, \<open>desc[i]\<close> are offsets
  into \<open>metadata\<close>; \<open>psq\<close> is the offset in \<open>smem\<close> at which the packet array starts. Each
  list is as long as its allocation.
\<close>

record chunk =
  i0 :: int
  N :: int
  pn :: int
  dsq :: "nat list"
  name :: "nat list"
  acc :: "nat list"
  desc :: "nat list"
  taxid :: "int list"
  L :: "int list"
  metadata :: "8 word list"
  mdalloc :: nat
  smem :: "ESL_DSQ list"
  psq :: nat

text \<open>
  \<^verbatim>\<open>dsqdata_chunk_Create\<close>, for a reader with the given \<open>chunk_maxseq\<close>, \<open>chunk_maxpacket\<close>
  and \<open>pack5\<close>. The arena has \<open>U\<close> bytes:
  \<^verbatim>\<open>U = (dd->pack5 ? 6 * dd->chunk_maxpacket : 15 * dd->chunk_maxpacket);
    U += dd->chunk_maxseq + 1;\<close>
  and the packets are loaded at \<^verbatim>\<open>chu->smem + U - 4*dd->chunk_maxpacket\<close>. What \<open>malloc\<close> leaves
  in the buffers is not determined; they are zero here, and the theorems below speak of
  any contents. Failure of an allocation is left out.
\<close>

definition chunk_U :: "nat \<Rightarrow> nat \<Rightarrow> bool \<Rightarrow> nat" where
  "chunk_U chunk_maxseq chunk_maxpacket pack5 =
     (if pack5 then 6 * chunk_maxpacket else 15 * chunk_maxpacket) + (chunk_maxseq + 1)"

definition dsqdata_chunk_Create :: "nat \<Rightarrow> nat \<Rightarrow> bool \<Rightarrow> chunk" where
  "dsqdata_chunk_Create chunk_maxseq chunk_maxpacket pack5 =
     \<lparr>i0 = 0, N = 0, pn = 0,
      dsq = replicate chunk_maxseq 0,
      name = replicate chunk_maxseq 0,
      acc = replicate chunk_maxseq 0,
      desc = replicate chunk_maxseq 0,
      taxid = replicate chunk_maxseq 0,
      L = replicate chunk_maxseq 0,
      metadata = replicate (20 * chunk_maxseq) 0,
      mdalloc = 20 * chunk_maxseq,
      smem = replicate (chunk_U chunk_maxseq chunk_maxpacket pack5) 0,
      psq = chunk_U chunk_maxseq chunk_maxpacket pack5 - 4 * chunk_maxpacket\<rparr>"

text \<open>A 32-bit value stored at byte offset \<open>a\<close> of a buffer (little-endian host).\<close>

definition rd32 :: "8 word list \<Rightarrow> nat \<Rightarrow> 32 word" where
  "rd32 m a = ucast (m ! a) OR push_bit 8 (ucast (m ! (a + 1)))
              OR push_bit 16 (ucast (m ! (a + 2))) OR push_bit 24 (ucast (m ! (a + 3)))"

text \<open>\<^verbatim>\<open>v = chu->psq[pos]\<close>: the packet is picked up from the arena.\<close>

definition get_packet :: "chunk \<Rightarrow> nat \<Rightarrow> failure + packet" where
  "get_packet chu pos =
     (if psq chu + 4 * pos + 4 \<le> length (smem chu)
      then Inr (rd32 (smem chu) (psq chu + 4 * pos))
      else Inl OutOfBounds)"

text \<open>
  The state of the residue decoding: the chunk, the position \<open>r\<close> in the unpacked array
  and the sequence index \<open>i\<close>. \<open>emit xs\<close> is \<^verbatim>\<open>dsq[r++] = x\<close> for each \<open>x\<close> of \<open>xs\<close> in turn.
\<close>

type_synonym ustate = "chunk \<times> nat \<times> nat"

fun emit :: "ESL_DSQ list \<Rightarrow> ustate \<Rightarrow> failure + ustate" where
  "emit [] st = Inr st"
| "emit (x # xs) (chu, r, i) =
     (if r < length (smem chu)
      then emit xs (chu\<lparr>smem := (smem chu)[r := x]\<rparr>, r + 1, i)
      else Inl OutOfBounds)"

text \<open>
  The end of a sequence (cases 2 and 3 of the switch):
  \<^verbatim>\<open>chu->L[i] = &(dsq[r]) - chu->dsq[i] - 1; i++;
    if (i < chu->N) chu->dsq[i] = &(dsq[r]);
    dsq[r++] = eslDSQ_SENTINEL;\<close>
\<close>

definition finalize :: "ustate \<Rightarrow> failure + ustate" where
  "finalize st =
     (case st of (chu, r, i) \<Rightarrow>
        if i < length (dsq chu) \<and> i < length (L chu)
        then (let chu = chu\<lparr>L := (L chu)[i := int r - int (dsq chu ! i) - 1]\<rparr>;
                  i = i + 1
              in if int i < N chu
                 then (if i < length (dsq chu)
                       then emit [eslDSQ_SENTINEL] (chu\<lparr>dsq := (dsq chu)[i := r]\<rparr>, r, i)
                       else Inl OutOfBounds)
                 else emit [eslDSQ_SENTINEL] (chu, r, i))
        else Inl OutOfBounds)"

text \<open>The body of the packet loop after the packet is picked up: \<^verbatim>\<open>switch ( (v >> 30) )\<close>.\<close>

definition unpack_packet :: "packet \<Rightarrow> ustate \<Rightarrow> failure + ustate" where
  "unpack_packet v st =
     (if drop_bit 30 v = 0 then emit (unpack_2bit v) st
      else if drop_bit 30 v = 1 then emit (unpack_5bit v) st
      else if drop_bit 30 v = 2 then
        (case emit (unpack_2bit v) st of Inl e \<Rightarrow> Inl e | Inr st' \<Rightarrow> finalize st')
      else
        (case emit (unpack_5bit_eod v 25) st of Inl e \<Rightarrow> Inl e | Inr st' \<Rightarrow> finalize st'))"

lemma emit_pn: "emit xs st = Inr st' \<Longrightarrow> pn (fst st') = pn (fst st)"
  by (induction xs st arbitrary: st' rule: emit.induct) (auto split: if_splits)

lemma emit_N: "emit xs st = Inr st' \<Longrightarrow> N (fst st') = N (fst st)"
  by (induction xs st arbitrary: st' rule: emit.induct) (auto split: if_splits)

lemma finalize_pn: "finalize st = Inr st' \<Longrightarrow> pn (fst st') = pn (fst st)"
  by (auto simp: finalize_def Let_def split: prod.splits if_splits dest!: emit_pn)

lemma unpack_packet_pn: "unpack_packet v st = Inr st' \<Longrightarrow> pn (fst st') = pn (fst st)"
  by (auto simp: unpack_packet_def split: if_splits sum.splits dest!: emit_pn finalize_pn)

text \<open>\<^verbatim>\<open>for (pos = 0; pos < chu->pn; pos++)\<close>\<close>

function unpack_packets :: "ustate \<Rightarrow> nat \<Rightarrow> failure + ustate" where
  "unpack_packets st pos =
     (if int pos < pn (fst st)
      then (case get_packet (fst st) pos of
              Inl e \<Rightarrow> Inl e
            | Inr v \<Rightarrow>
                (case unpack_packet v st of
                   Inl e \<Rightarrow> Inl e
                 | Inr st' \<Rightarrow> unpack_packets st' (pos + 1)))
      else Inr st)"
  by pat_completeness auto
termination
proof (relation "measure (\<lambda>(st, pos). nat (pn (fst st) - int pos))", goal_cases)
  case 1
  show ?case by simp
next
  case (2 st pos v st')
  then have "pn (fst st') = pn (fst st)" by (intro unpack_packet_pn [of v]) simp
  with 2 show ?case by simp
qed

declare unpack_packets.simps [simp del]

text \<open>
  The residue part of the routine:
  \<^verbatim>\<open>i = 0; chu->dsq[0] = (ESL_DSQ *) chu->smem; dsq[r++] = eslDSQ_SENTINEL;\<close> and the loop.
\<close>

definition unpack_residues :: "chunk \<Rightarrow> failure + ustate" where
  "unpack_residues chu =
     (if 0 < length (dsq chu)
      then (case emit [eslDSQ_SENTINEL] (chu\<lparr>dsq := (dsq chu)[0 := 0]\<rparr>, 0, 0) of
              Inl e \<Rightarrow> Inl e
            | Inr st \<Rightarrow> unpack_packets st 0)
      else Inl OutOfBounds)"


text \<open>
  The metadata part. \<^verbatim>\<open>strchr(ptr, '\\0')\<close> scans for the next zero byte; it knows no
  bound, so running off the allocation is an access out of bounds.
\<close>

function strchr0 :: "8 word list \<Rightarrow> nat \<Rightarrow> nat option" where
  "strchr0 md p =
     (if p < length md then (if md ! p = 0 then Some p else strchr0 md (p + 1)) else None)"
  by pat_completeness auto
termination
  by (relation "measure (\<lambda>(md, p). length md - p)") auto

declare strchr0.simps [simp del]

text \<open>
  \<^verbatim>\<open>ptr = 1 + strchr(ptr, '\\0');
    if ( ptr >= chu->metadata + chu->mdalloc) ESL_EXCEPTION(eslEFORMAT, ...);\<close>
\<close>

definition md_next :: "chunk \<Rightarrow> nat \<Rightarrow> failure + nat" where
  "md_next chu ptr =
     (case strchr0 (metadata chu) ptr of
        None \<Rightarrow> Inl OutOfBounds
      | Some q \<Rightarrow> if 1 + q \<ge> mdalloc chu then Inl eslEFORMAT else Inr (1 + q))"

text \<open>A store into one of the per-sequence arrays.\<close>

definition store :: "'a list \<Rightarrow> nat \<Rightarrow> 'a \<Rightarrow> failure + 'a list" where
  "store xs i v = (if i < length xs then Inr (xs[i := v]) else Inl OutOfBounds)"

text \<open>Sequencing of steps that can fail: the first failure ends the routine.\<close>

definition and_then :: "failure + 'a \<Rightarrow> ('a \<Rightarrow> failure + 'b) \<Rightarrow> failure + 'b" where
  "and_then m f = (case m of Inl e \<Rightarrow> Inl e | Inr x \<Rightarrow> f x)"

text \<open>One iteration of the metadata loop, for sequence \<open>i\<close>, with \<open>ptr\<close> the walking offset.\<close>

definition unpack_metadata_record :: "chunk \<Rightarrow> nat \<Rightarrow> nat \<Rightarrow> failure + chunk \<times> nat" where
  "unpack_metadata_record chu i ptr =
     (if ptr \<ge> mdalloc chu then Inl eslEFORMAT
      else
        and_then (store (name chu) i ptr) (\<lambda>names.
        and_then (md_next chu ptr) (\<lambda>ptr.
        and_then (store (acc chu) i ptr) (\<lambda>accs.
        and_then (md_next chu ptr) (\<lambda>ptr.
        and_then (store (desc chu) i ptr) (\<lambda>descs.
        and_then (md_next chu ptr) (\<lambda>ptr.
          if ptr + 4 \<le> length (metadata chu)
          then and_then (store (taxid chu) i (sint (rd32 (metadata chu) ptr))) (\<lambda>taxids.
                 Inr (chu\<lparr>name := names, acc := accs, desc := descs, taxid := taxids\<rparr>, ptr + 4))
          else Inl OutOfBounds)))))))"

lemma unpack_metadata_record_N:
  "unpack_metadata_record chu i ptr = Inr (chu', ptr') \<Longrightarrow> N chu' = N chu"
  by (auto simp: unpack_metadata_record_def and_then_def split: if_splits sum.splits)

text \<open>\<^verbatim>\<open>for (i = 0; i < chu->N; i++)\<close>\<close>

function unpack_metadata :: "chunk \<Rightarrow> nat \<Rightarrow> nat \<Rightarrow> failure + chunk \<times> nat" where
  "unpack_metadata chu i ptr =
     (if int i < N chu
      then (case unpack_metadata_record chu i ptr of
              Inl e \<Rightarrow> Inl e
            | Inr (chu', ptr') \<Rightarrow> unpack_metadata chu' (i + 1) ptr')
      else Inr (chu, ptr))"
  by pat_completeness auto
termination
proof (relation "measure (\<lambda>(chu, i, ptr). nat (N chu - int i))", goal_cases)
  case 1
  show ?case by simp
next
  case (2 chu i ptr x2 chu' ptr')
  then have "N chu' = N chu" by (intro unpack_metadata_record_N [of chu i ptr chu' ptr']) simp
  with 2 show ?case by simp
qed

declare unpack_metadata.simps [simp del]

text \<open>
  The whole routine. \<open>debug\<close> says whether the build compiles \<^verbatim>\<open>ESL_DASSERT1\<close> in (the
  macro is defined in \<^verbatim>\<open>easel.h\<close>, not among the sources; it is a debugging assertion,
  used as a statement in functions of every return type, that is compiled out otherwise).
  The routine ends with \<^verbatim>\<open>ESL_DASSERT1(( i == chu->N )); return eslOK;\<close>
\<close>

definition dsqdata_unpack_chunk :: "bool \<Rightarrow> chunk \<Rightarrow> failure + chunk" where
  "dsqdata_unpack_chunk debug chu =
     (case unpack_metadata chu 0 0 of
        Inl e \<Rightarrow> Inl e
      | Inr (chu, ptr) \<Rightarrow>
          (case unpack_residues chu of
             Inl e \<Rightarrow> Inl e
           | Inr (chu, r, i) \<Rightarrow>
               if debug \<and> int i \<noteq> N chu then Inl AssertionFailed else Inr chu))"

section \<open>The routine at malformed and at empty input\<close>

lemmas unpack_eval = dsqdata_unpack_chunk_def unpack_metadata.simps unpack_metadata_record_def
  and_then_def store_def md_next_def strchr0.simps unpack_residues_def unpack_packets.simps
  get_packet_def rd32_def unpack_packet_def finalize_def Let_def unpack_2bit_def unpack_5bit_def
  unpack_5bit_eod.simps res5_def res2_def eslDSQ_SENTINEL_def

text \<open>
  Claim C6, at a truncated metadata record. The chunk is one of a reader with
  \<open>chunk_maxseq = 1\<close>, so \<open>mdalloc = 20\<close>; the loader read two bytes of metadata for it
  (\<open>nmeta = 2\<close>: the name \<open>a\<close> and its terminator), and the rest of the buffer holds what an
  earlier use left there. The walk steps past the two loaded bytes: the guards compare
  \<open>ptr\<close> with \<open>metadata + mdalloc\<close>, not with the end of what was read, and
  \<^verbatim>\<open>strchr\<close> has no bound. The routine returns \<^verbatim>\<open>eslOK\<close>, with the accession and
  description pointers and the taxonomy id taken from offsets 2, 4 and 6.
\<close>

theorem unpack_metadata_walks_past_loaded:
  "dsqdata_unpack_chunk True
      \<lparr>i0 = 0, N = 1, pn = 1, dsq = [0], name = [0], acc = [0], desc = [0], taxid = [0], L = [0],
       metadata = [97, 0] @ [98, 0, 99, 0, 7, 0, 0, 0, 0, 0, 0, 0, 0, 0, 0, 0, 0, 0], mdalloc = 20,
       smem = [0, 0, 0, 0, 0xFF, 0xFF, 0xFF, 0xC3], psq = 4\<rparr>
   = Inr \<lparr>i0 = 0, N = 1, pn = 1, dsq = [0], name = [0], acc = [2], desc = [4], taxid = [7], L = [1],
       metadata = [97, 0, 98, 0, 99, 0, 7, 0, 0, 0, 0, 0, 0, 0, 0, 0, 0, 0, 0, 0], mdalloc = 20,
       smem = [255, 1, 255, 0, 0xFF, 0xFF, 0xFF, 0xC3], psq = 4\<rparr>"
  by (simp add: unpack_eval)

text \<open>
  Claim C7, at a chunk of one sequence whose only packet is a full 5-bit packet without the
  end-of-data bit: no sequence is finalized, the sequence index ends at 0, not at \<open>N = 1\<close>.
  Without the debugging assertions the routine returns \<^verbatim>\<open>eslOK\<close>; with them the assertion
  fails. In neither build does it return \<^verbatim>\<open>eslEFORMAT\<close>.
\<close>

theorem unpack_missing_eod_returns_ok:
  "\<not> isl (dsqdata_unpack_chunk False
      \<lparr>i0 = 0, N = 1, pn = 1, dsq = [0], name = [0], acc = [0], desc = [0], taxid = [0], L = [- 7],
       metadata = [97, 0, 98, 0, 99, 0, 5, 0, 0, 0, 0, 0, 0, 0, 0, 0, 0, 0, 0, 0], mdalloc = 20,
       smem = [0, 0, 0, 0, 0x85, 0x0C, 0x11, 0x40], psq = 4\<rparr>) \<and>
   snd (snd (projr (unpack_residues
      \<lparr>i0 = 0, N = 1, pn = 1, dsq = [0], name = [0], acc = [0], desc = [0], taxid = [0], L = [- 7],
       metadata = [97, 0, 98, 0, 99, 0, 5, 0, 0, 0, 0, 0, 0, 0, 0, 0, 0, 0, 0, 0], mdalloc = 20,
       smem = [0, 0, 0, 0, 0x85, 0x0C, 0x11, 0x40], psq = 4\<rparr>))) = 0 \<and>
   dsqdata_unpack_chunk True
      \<lparr>i0 = 0, N = 1, pn = 1, dsq = [0], name = [0], acc = [0], desc = [0], taxid = [0], L = [- 7],
       metadata = [97, 0, 98, 0, 99, 0, 5, 0, 0, 0, 0, 0, 0, 0, 0, 0, 0, 0, 0, 0], mdalloc = 20,
       smem = [0, 0, 0, 0, 0x85, 0x0C, 0x11, 0x40], psq = 4\<rparr> = Inl AssertionFailed"
  by (simp add: unpack_eval)

text \<open>
  Claim C10, at a chunk with \<open>N = 1\<close> whose two packets both carry the end-of-data bit
  (reader with \<open>chunk_maxseq = 2\<close>, \<open>chunk_maxpacket = 2\<close>, protein). The store to
  \<open>dsq[i]\<close> is guarded by \<^verbatim>\<open>if (i < chu->N)\<close>, the store to \<open>L[i]\<close> is not: the second
  end-of-data packet overwrites \<open>L[1]\<close> (here \<open>-7\<close> before the call), and leaves \<open>dsq[1]\<close>
  alone.
\<close>

theorem unpack_writes_L_beyond_N:
  "dsqdata_unpack_chunk False
      \<lparr>i0 = 0, N = 1, pn = 2, dsq = [0, 0], name = [0, 0], acc = [0, 0], desc = [0, 0],
       taxid = [0, 0], L = [- 7, - 7],
       metadata = [97, 0, 98, 0, 99, 0, 5, 0, 0, 0] @ replicate 30 0, mdalloc = 40,
       smem = [0, 0, 0, 0, 0, 0, 0, 0xFF, 0xFF, 0xFF, 0xC3, 0xFF, 0xFF, 0xFF, 0xC3], psq = 7\<rparr>
   = Inr \<lparr>i0 = 0, N = 1, pn = 2, dsq = [0, 0], name = [0, 0], acc = [2, 0], desc = [4, 0],
       taxid = [5, 0], L = [1, 3],
       metadata = [97, 0, 98, 0, 99, 0, 5, 0, 0, 0] @ replicate 30 0, mdalloc = 40,
       smem = [255, 1, 255, 1, 255, 0, 0, 0xFF, 0xFF, 0xFF, 0xC3, 0xFF, 0xFF, 0xFF, 0xC3], psq = 7\<rparr>"
  by (simp add: unpack_eval)

text \<open>
  Claim C1, at a protein sequence of length 0. \<^verbatim>\<open>dsqdata_pack5\<close> gives no packet for it
  (its loop needs \<open>r \<le> n\<close>), so the index record of a database holding just this sequence
  has \<open>psq_end = -1\<close> and the loader hands over a chunk with \<open>N = 1\<close> and \<open>pn = 0\<close>. The
  packet loop does not run: the sequence is never finalized, \<open>L[0]\<close> keeps what it held
  (\<open>-7\<close> here) instead of the length 0, and the final \<^verbatim>\<open>ESL_DASSERT1(( i == chu->N ))\<close> fails
  where it is compiled in.
\<close>

theorem roundtrip_empty_sequence_lost:
  "dsqdata_pack5 [255, 255] 0 = [] \<and>
   loader_pn [\<lparr>psq_end = int (length (dsqdata_pack5 [255, 255] 0)) - 1, metadata_end = 9\<rparr>] 1 (- 1) 1 = 0 \<and>
   dsqdata_unpack_chunk False
      \<lparr>i0 = 0, N = 1, pn = 0, dsq = [0], name = [0], acc = [0], desc = [0], taxid = [0], L = [- 7],
       metadata = [97, 0, 98, 0, 99, 0, 5, 0, 0, 0, 0, 0, 0, 0, 0, 0, 0, 0, 0, 0], mdalloc = 20,
       smem = [0, 0, 0, 0, 0, 0, 0, 0], psq = 4\<rparr>
   = Inr \<lparr>i0 = 0, N = 1, pn = 0, dsq = [0], name = [0], acc = [2], desc = [4], taxid = [5], L = [- 7],
       metadata = [97, 0, 98, 0, 99, 0, 5, 0, 0, 0, 0, 0, 0, 0, 0, 0, 0, 0, 0, 0], mdalloc = 20,
       smem = [255, 0, 0, 0, 0, 0, 0, 0], psq = 4\<rparr> \<and>
   dsqdata_unpack_chunk True
      \<lparr>i0 = 0, N = 1, pn = 0, dsq = [0], name = [0], acc = [0], desc = [0], taxid = [0], L = [- 7],
       metadata = [97, 0, 98, 0, 99, 0, 5, 0, 0, 0, 0, 0, 0, 0, 0, 0, 0, 0, 0, 0], mdalloc = 20,
       smem = [0, 0, 0, 0, 0, 0, 0, 0], psq = 4\<rparr> = Inl AssertionFailed"
  by (simp add: unpack_eval pack5_eval loader_pn_def loader_nload_def psq_diff_def to_int64_def
      to_int32_def)

section \<open>\<^verbatim>\<open>esl_dsqdata_Read\<close> and the end-of-file flag\<close>

text \<open>
  The fields of the reader \<^verbatim>\<open>ESL_DSQDATA\<close> that \<^verbatim>\<open>esl_dsqdata_Read\<close> and
  \<^verbatim>\<open>esl_dsqdata_Recycle\<close> use, the unpacker thread's local flag \<open>done\<close>, and where each
  consumer thread stands inside \<^verbatim>\<open>esl_dsqdata_Read\<close>. The recycling stack, linked through
  \<open>nxt\<close>, is a list with its head first. Calls of the pthread library are taken to
  succeed.
\<close>

datatype read_status = eslOK | eslEOF

datatype reader_pc =
    Idle
  | Entered
  | Holding chunk
  | Returning read_status "chunk option"

record dsqdata =
  at_eof :: bool
  unpacker_outbox :: "chunk option"
  recycling :: "chunk list"
  unpacker_done :: bool
  reader :: "nat \<Rightarrow> reader_pc"

text \<open>
  The atomic steps. For consumer thread \<open>t\<close> inside \<^verbatim>\<open>esl_dsqdata_Read\<close>:
  \<^item> \<open>Call t\<close>: the test \<^verbatim>\<open>if (dd->at_eof) { *ret_chu = NULL; return eslEOF; }\<close>;
  \<^item> \<open>Take t chu\<close>: the section under \<open>unpacker_outbox_mutex\<close>, once the outbox is not
    \<open>NULL\<close>: \<^verbatim>\<open>chu = dd->unpacker_outbox; dd->unpacker_outbox = NULL;
    if (! chu->N) dd->at_eof = TRUE;\<close>
  \<^item> \<open>Finish t\<close>: \<^verbatim>\<open>if (chu->N) { *ret_chu = chu; return eslOK; }
    else { esl_dsqdata_Recycle(dd, chu); *ret_chu = NULL; return eslEOF; }\<close>
  \<^item> \<open>Return t st ret\<close>: the call returns status \<open>st\<close> and \<open>*ret_chu = ret\<close> to its caller.
  \<open>Put chu\<close> is the unpacker thread depositing a chunk in its outbox, which it does while
  the outbox is \<open>NULL\<close> and until it has passed the empty chunk on (\<open>done\<close>).
  \<open>Recycle chu\<close> is a consumer's \<^verbatim>\<open>esl_dsqdata_Recycle\<close>; \<open>Reuse\<close> is the loader popping
  the recycling stack. A step that is not enabled gives \<open>None\<close>; a thread waiting on an
  empty outbox has no \<open>Take\<close> step.
\<close>

datatype event =
    Call nat
  | Take nat chunk
  | Finish nat
  | Return nat read_status "chunk option"
  | Put chunk
  | Recycle chunk
  | Reuse

definition esl_dsqdata_Recycle :: "dsqdata \<Rightarrow> chunk \<Rightarrow> dsqdata" where
  "esl_dsqdata_Recycle dd chu = dd\<lparr>recycling := chu # recycling dd\<rparr>"

fun step :: "dsqdata \<Rightarrow> event \<Rightarrow> dsqdata option" where
  "step dd (Call t) =
     (if reader dd t = Idle
      then Some (dd\<lparr>reader := (reader dd)
                    (t := if at_eof dd then Returning eslEOF None else Entered)\<rparr>)
      else None)"
| "step dd (Take t chu) =
     (if reader dd t = Entered \<and> unpacker_outbox dd = Some chu
      then Some (dd\<lparr>unpacker_outbox := None,
                   at_eof := (if N chu = 0 then True else at_eof dd),
                   reader := (reader dd)(t := Holding chu)\<rparr>)
      else None)"
| "step dd (Finish t) =
     (case reader dd t of
        Holding chu \<Rightarrow>
          if N chu \<noteq> 0
          then Some (dd\<lparr>reader := (reader dd)(t := Returning eslOK (Some chu))\<rparr>)
          else Some ((esl_dsqdata_Recycle dd chu)
                       \<lparr>reader := (reader dd)(t := Returning eslEOF None)\<rparr>)
      | _ \<Rightarrow> None)"
| "step dd (Return t st ret) =
     (if reader dd t = Returning st ret
      then Some (dd\<lparr>reader := (reader dd)(t := Idle)\<rparr>)
      else None)"
| "step dd (Put chu) =
     (if unpacker_outbox dd = None \<and> \<not> unpacker_done dd
      then Some (dd\<lparr>unpacker_outbox := Some chu, unpacker_done := (N chu = 0)\<rparr>)
      else None)"
| "step dd (Recycle chu) = Some (esl_dsqdata_Recycle dd chu)"
| "step dd Reuse =
     (case recycling dd of [] \<Rightarrow> None | chu # rest \<Rightarrow> Some (dd\<lparr>recycling := rest\<rparr>))"

fun exec :: "dsqdata \<Rightarrow> event list \<Rightarrow> dsqdata option" where
  "exec dd [] = Some dd"
| "exec dd (e # es) = (case step dd e of None \<Rightarrow> None | Some dd' \<Rightarrow> exec dd' es)"

text \<open>The reader as \<^verbatim>\<open>esl_dsqdata_Open\<close> leaves it.\<close>

definition opened :: dsqdata where
  "opened = \<lparr>at_eof = False, unpacker_outbox = None, recycling = [], unpacker_done = False,
             reader = (\<lambda>t. Idle)\<rparr>"


text \<open>The events in which a call of \<^verbatim>\<open>esl_dsqdata_Read\<close> takes a chunk, and the empty chunk.\<close>

fun is_take :: "event \<Rightarrow> bool" where
  "is_take (Take t chu) = True"
| "is_take _ = False"

fun is_eof_take :: "event \<Rightarrow> bool" where
  "is_eof_take (Take t chu) = (N chu = 0)"
| "is_eof_take _ = False"

text \<open>The value a call may hand back: end of file with \<open>NULL\<close>, or a chunk that is not empty.\<close>

fun proper_return :: "read_status \<Rightarrow> chunk option \<Rightarrow> bool" where
  "proper_return eslEOF None = True"
| "proper_return eslOK (Some chu) = (N chu \<noteq> 0)"
| "proper_return _ _ = False"

text \<open>What holds in every state that the threads can reach.\<close>

definition reachable_inv :: "dsqdata \<Rightarrow> bool" where
  "reachable_inv dd \<longleftrightarrow>
     (at_eof dd \<longrightarrow> unpacker_done dd \<and> unpacker_outbox dd = None) \<and>
     (unpacker_done dd \<and> \<not> at_eof dd \<longrightarrow> (\<exists>chu. unpacker_outbox dd = Some chu \<and> N chu = 0)) \<and>
     (\<not> unpacker_done dd \<longrightarrow> (\<forall>chu. unpacker_outbox dd = Some chu \<longrightarrow> N chu \<noteq> 0)) \<and>
     (\<forall>t st ret. reader dd t = Returning st ret \<longrightarrow> proper_return st ret)"

lemma reachable_inv_opened: "reachable_inv opened"
  by (simp add: reachable_inv_def opened_def)

lemma reachable_invI:
  assumes "at_eof dd \<Longrightarrow> unpacker_done dd \<and> unpacker_outbox dd = None"
    and "unpacker_done dd \<Longrightarrow> \<not> at_eof dd \<Longrightarrow> \<exists>chu. unpacker_outbox dd = Some chu \<and> N chu = 0"
    and "\<And>chu. \<not> unpacker_done dd \<Longrightarrow> unpacker_outbox dd = Some chu \<Longrightarrow> N chu \<noteq> 0"
    and "\<And>t st ret. reader dd t = Returning st ret \<Longrightarrow> proper_return st ret"
  shows "reachable_inv dd"
  using assms unfolding reachable_inv_def by blast

lemma reachable_invD:
  assumes "reachable_inv dd"
  shows "at_eof dd \<Longrightarrow> unpacker_done dd \<and> unpacker_outbox dd = None"
    and "unpacker_done dd \<Longrightarrow> \<not> at_eof dd \<Longrightarrow> \<exists>chu. unpacker_outbox dd = Some chu \<and> N chu = 0"
    and "\<not> unpacker_done dd \<Longrightarrow> unpacker_outbox dd = Some chu \<Longrightarrow> N chu \<noteq> 0"
    and "reader dd t = Returning st ret \<Longrightarrow> proper_return st ret"
  using assms unfolding reachable_inv_def by blast+

lemma reachable_inv_step:
  assumes inv: "reachable_inv dd" and st: "step dd e = Some dd'"
  shows "reachable_inv dd'"
proof (cases e)
  case (Call t)
  with st have dd': "dd' = dd\<lparr>reader := (reader dd)
                    (t := if at_eof dd then Returning eslEOF None else Entered)\<rparr>"
    by (simp split: if_splits)
  show ?thesis
  proof (rule reachable_invI)
    fix t' st' ret' assume "reader dd' t' = Returning st' ret'"
    then have "(st' = eslEOF \<and> ret' = None) \<or> reader dd t' = Returning st' ret'"
      unfolding dd' by (auto split: if_splits)
    then show "proper_return st' ret'" using reachable_invD(4) [OF inv] by auto
  qed (use reachable_invD(1-3) [OF inv] in \<open>auto simp: dd'\<close>)
next
  case (Take t chu)
  with st have pre: "reader dd t = Entered" "unpacker_outbox dd = Some chu"
    and dd': "dd' = dd\<lparr>unpacker_outbox := None,
                   at_eof := (if N chu = 0 then True else at_eof dd),
                   reader := (reader dd)(t := Holding chu)\<rparr>"
    by (simp_all split: if_splits)
  from pre(2) reachable_invD(1) [OF inv] have ne: "\<not> at_eof dd" by auto
  show ?thesis
  proof (rule reachable_invI)
    fix t' st' ret' assume "reader dd' t' = Returning st' ret'"
    then have "reader dd t' = Returning st' ret'"
      unfolding dd' by (auto split: if_splits)
    then show "proper_return st' ret'" by (rule reachable_invD(4) [OF inv])
  next
    show "at_eof dd' \<Longrightarrow> unpacker_done dd' \<and> unpacker_outbox dd' = None"
      using ne pre(2) reachable_invD(3) [OF inv, of chu] unfolding dd' by (auto split: if_splits)
    show "unpacker_done dd' \<Longrightarrow> \<not> at_eof dd' \<Longrightarrow> \<exists>chu. unpacker_outbox dd' = Some chu \<and> N chu = 0"
      using ne pre(2) reachable_invD(2) [OF inv] unfolding dd' by (auto split: if_splits)
    show "\<And>c. \<not> unpacker_done dd' \<Longrightarrow> unpacker_outbox dd' = Some c \<Longrightarrow> N c \<noteq> 0"
      unfolding dd' by simp
  qed
next
  case (Finish t)
  with st obtain chu where pre: "reader dd t = Holding chu"
    and dd': "dd' = (if N chu \<noteq> 0
          then dd\<lparr>reader := (reader dd)(t := Returning eslOK (Some chu))\<rparr>
          else (esl_dsqdata_Recycle dd chu)\<lparr>reader := (reader dd)(t := Returning eslEOF None)\<rparr>)"
    by (auto split: reader_pc.splits if_splits)
  show ?thesis
  proof (rule reachable_invI)
    fix t' st' ret' assume "reader dd' t' = Returning st' ret'"
    then have "(st' = eslEOF \<and> ret' = None) \<or> (st' = eslOK \<and> ret' = Some chu \<and> N chu \<noteq> 0)
               \<or> reader dd t' = Returning st' ret'"
      unfolding dd' by (auto simp: esl_dsqdata_Recycle_def split: if_splits)
    then show "proper_return st' ret'" using reachable_invD(4) [OF inv] by auto
  next
    have fr: "at_eof dd' = at_eof dd" "unpacker_done dd' = unpacker_done dd"
      "unpacker_outbox dd' = unpacker_outbox dd"
      unfolding dd' by (simp_all add: esl_dsqdata_Recycle_def)
    show "at_eof dd' \<Longrightarrow> unpacker_done dd' \<and> unpacker_outbox dd' = None"
      unfolding fr by (rule reachable_invD(1) [OF inv])
    show "unpacker_done dd' \<Longrightarrow> \<not> at_eof dd' \<Longrightarrow> \<exists>chu. unpacker_outbox dd' = Some chu \<and> N chu = 0"
      unfolding fr by (rule reachable_invD(2) [OF inv])
    show "\<And>c. \<not> unpacker_done dd' \<Longrightarrow> unpacker_outbox dd' = Some c \<Longrightarrow> N c \<noteq> 0"
      unfolding fr by (rule reachable_invD(3) [OF inv])
  qed
next
  case (Return t st ret)
  with \<open>step dd e = Some dd'\<close> have dd': "dd' = dd\<lparr>reader := (reader dd)(t := Idle)\<rparr>"
    by (simp split: if_splits)
  show ?thesis
  proof (rule reachable_invI)
    fix t' st' ret' assume "reader dd' t' = Returning st' ret'"
    then have "reader dd t' = Returning st' ret'"
      unfolding dd' by (auto split: if_splits)
    then show "proper_return st' ret'" by (rule reachable_invD(4) [OF inv])
  qed (use reachable_invD(1-3) [OF inv] in \<open>auto simp: dd'\<close>)
next
  case (Put chu)
  with st have pre: "unpacker_outbox dd = None" "\<not> unpacker_done dd"
    and dd': "dd' = dd\<lparr>unpacker_outbox := Some chu, unpacker_done := (N chu = 0)\<rparr>"
    by (simp_all split: if_splits)
  from pre(2) reachable_invD(1) [OF inv] have ne: "\<not> at_eof dd" by auto
  show ?thesis
  proof (rule reachable_invI)
    fix t' st' ret' assume "reader dd' t' = Returning st' ret'"
    then have "reader dd t' = Returning st' ret'"
      unfolding dd' by simp
    then show "proper_return st' ret'" by (rule reachable_invD(4) [OF inv])
  qed (use ne in \<open>auto simp: dd'\<close>)
next
  case (Recycle chu)
  with st have dd': "dd' = esl_dsqdata_Recycle dd chu" by simp
  show ?thesis
    using inv unfolding dd' reachable_inv_def esl_dsqdata_Recycle_def by simp
next
  case Reuse
  with st obtain rest where dd': "dd' = dd\<lparr>recycling := rest\<rparr>"
    by (auto split: list.splits)
  show ?thesis
    using inv unfolding dd' reachable_inv_def by simp
qed

lemma reachable_inv_exec:
  "reachable_inv dd \<Longrightarrow> exec dd es = Some dd' \<Longrightarrow> reachable_inv dd'"
proof (induction es arbitrary: dd)
  case Nil
  then show ?case by simp
next
  case (Cons e es)
  then obtain dd1 where s: "step dd e = Some dd1" and r: "exec dd1 es = Some dd'"
    by (auto split: option.splits)
  from Cons.prems(1) s have "reachable_inv dd1" by (rule reachable_inv_step)
  then show ?case using r by (rule Cons.IH)
qed

lemma exec_append:
  "exec dd (es @ fs) = (case exec dd es of None \<Rightarrow> None | Some dd' \<Rightarrow> exec dd' fs)"
  by (induction es arbitrary: dd) (auto split: option.splits)

lemma at_eof_step: "at_eof dd \<Longrightarrow> step dd e = Some dd' \<Longrightarrow> at_eof dd'"
  by (cases e) (auto simp: esl_dsqdata_Recycle_def split: if_splits reader_pc.splits list.splits)

lemma latched_exec:
  "reachable_inv dd \<Longrightarrow> at_eof dd \<Longrightarrow> exec dd es = Some dd'
   \<Longrightarrow> at_eof dd' \<and> filter is_take es = []"
proof (induction es arbitrary: dd)
  case Nil
  then show ?case by simp
next
  case (Cons e es)
  then obtain dd1 where s: "step dd e = Some dd1" and r: "exec dd1 es = Some dd'"
    by (auto split: option.splits)
  from Cons.prems(1) s have i1: "reachable_inv dd1" by (rule reachable_inv_step)
  from Cons.prems(2) s have e1: "at_eof dd1" by (rule at_eof_step)
  have "\<not> is_take e"
  proof (cases e)
    case (Take t chu)
    with s reachable_invD(1) [OF Cons.prems(1,2)] show ?thesis by (auto split: if_splits)
  qed simp_all
  with Cons.IH [OF i1 e1 r] show ?case by simp
qed

lemma eof_takes_exec:
  "reachable_inv dd \<Longrightarrow> exec dd es = Some dd' \<Longrightarrow> length (filter is_eof_take es) \<le> 1"
proof (induction es arbitrary: dd)
  case Nil
  then show ?case by simp
next
  case (Cons e es)
  then obtain dd1 where s: "step dd e = Some dd1" and r: "exec dd1 es = Some dd'"
    by (auto split: option.splits)
  from Cons.prems(1) s have i1: "reachable_inv dd1" by (rule reachable_inv_step)
  show ?case
  proof (cases "is_eof_take e")
    case False
    with Cons.IH [OF i1 r] show ?thesis by simp
  next
    case True
    then obtain t chu where e: "e = Take t chu" "N chu = 0" by (cases e) auto
    with s have "at_eof dd1" by (auto split: if_splits)
    from latched_exec [OF i1 this r] have "filter is_take es = []" by simp
    moreover have "is_take x" if "is_eof_take x" for x using that by (cases x) auto
    ultimately have "filter is_eof_take es = []"
      by (auto simp: filter_empty_conv)
    with True show ?thesis by simp
  qed
qed

lemma returns_exec:
  "reachable_inv dd \<Longrightarrow> exec dd es = Some dd' \<Longrightarrow> Return t st ret \<in> set es
   \<Longrightarrow> proper_return st ret"
proof (induction es arbitrary: dd)
  case Nil
  then show ?case by simp
next
  case (Cons e es)
  then obtain dd1 where s: "step dd e = Some dd1" and r: "exec dd1 es = Some dd'"
    by (auto split: option.splits)
  from Cons.prems(1) s have i1: "reachable_inv dd1" by (rule reachable_inv_step)
  show ?case
  proof (cases "e = Return t st ret")
    case True
    with s have "reader dd t = Returning st ret" by (auto split: if_splits)
    then show ?thesis by (rule reachable_invD(4) [OF Cons.prems(1)])
  next
    case False
    with Cons.prems(3) have "Return t st ret \<in> set es" by simp
    with Cons.IH [OF i1 r] show ?thesis by simp
  qed
qed

text \<open>
  Claim C8. In every state \<open>dd\<close> that consumer threads calling \<^verbatim>\<open>esl_dsqdata_Read\<close> and the
  unpacker thread can reach from the opened reader, by the events \<open>tr\<close>:
  \<^item> a call that takes the chunk with \<open>N = 0\<close> from the outbox latches \<open>at_eof\<close>, and its
    next step recycles that chunk and returns \<^verbatim>\<open>eslEOF\<close> with a \<open>NULL\<close> chunk;
  \<^item> once \<open>at_eof\<close> is latched, a call returns \<^verbatim>\<open>eslEOF\<close> with \<open>NULL\<close> at once and changes
    nothing else, the outbox is empty, and in all that follows the flag stays latched and
    nothing is taken from the outbox;
  \<^item> at most one call ever takes an empty chunk;
  \<^item> every call that returns hands back either \<^verbatim>\<open>eslEOF\<close> with \<open>NULL\<close>, or \<^verbatim>\<open>eslOK\<close> with a
    chunk that is not empty: the empty chunk is never returned.
\<close>

theorem read_eof_latching:
  assumes "exec opened tr = Some dd"
  shows "(\<forall>t chu dd'. step dd (Take t chu) = Some dd' \<and> N chu = 0 \<longrightarrow>
            at_eof dd' \<and>
            step dd' (Finish t)
              = Some (dd'\<lparr>recycling := chu # recycling dd',
                         reader := (reader dd')(t := Returning eslEOF None)\<rparr>)) \<and>
         (at_eof dd \<longrightarrow>
            (\<forall>t. reader dd t = Idle \<longrightarrow>
               step dd (Call t) = Some (dd\<lparr>reader := (reader dd)(t := Returning eslEOF None)\<rparr>)) \<and>
            unpacker_outbox dd = None \<and>
            (\<forall>es dd'. exec dd es = Some dd' \<longrightarrow> at_eof dd' \<and> filter is_take es = [])) \<and>
         length (filter is_eof_take tr) \<le> 1 \<and>
         (\<forall>t st ret. Return t st ret \<in> set tr \<longrightarrow> proper_return st ret)"
proof -
  have inv: "reachable_inv dd"
    using reachable_inv_opened assms by (rule reachable_inv_exec)
  have latch: "at_eof dd' \<and>
            step dd' (Finish t)
              = Some (dd'\<lparr>recycling := chu # recycling dd',
                         reader := (reader dd')(t := Returning eslEOF None)\<rparr>)"
    if "step dd (Take t chu) = Some dd'" "N chu = 0" for t chu dd'
    using that by (auto simp: esl_dsqdata_Recycle_def split: if_splits)
  have after: "(\<forall>t. reader dd t = Idle \<longrightarrow>
               step dd (Call t) = Some (dd\<lparr>reader := (reader dd)(t := Returning eslEOF None)\<rparr>)) \<and>
            unpacker_outbox dd = None \<and>
            (\<forall>es dd'. exec dd es = Some dd' \<longrightarrow> at_eof dd' \<and> filter is_take es = [])"
    if e: "at_eof dd"
  proof (intro conjI allI impI)
    fix t assume "reader dd t = Idle"
    with e show "step dd (Call t) = Some (dd\<lparr>reader := (reader dd)(t := Returning eslEOF None)\<rparr>)"
      by simp
  next
    show "unpacker_outbox dd = None" using reachable_invD(1) [OF inv e] by simp
  next
    fix es dd' assume "exec dd es = Some dd'"
    from latched_exec [OF inv e this] show "at_eof dd'" "filter is_take es = []" by simp_all
  qed
  have once: "length (filter is_eof_take tr) \<le> 1"
    using reachable_inv_opened assms by (rule eof_takes_exec)
  have rets: "proper_return st ret" if "Return t st ret \<in> set tr" for t st ret
    using reachable_inv_opened assms that by (rule returns_exec)
  show ?thesis
    using latch after once rets by blast
qed

lemma N_chunk_Create: "N (dsqdata_chunk_Create chunk_maxseq chunk_maxpacket pack5) = 0"
  by (simp add: dsqdata_chunk_Create_def)

text \<open>
  The theorem at a run of two consumers: thread 0 reads a chunk of one sequence and
  recycles it, then takes the empty chunk and returns \<^verbatim>\<open>eslEOF\<close>; thread 1 calls afterwards
  and returns \<^verbatim>\<open>eslEOF\<close> at once.
\<close>

theorem read_eof_latching_witness:
  "exec opened
     [Put ((dsqdata_chunk_Create 1 1 True)\<lparr>N := 1\<rparr>), Call 0,
      Take 0 ((dsqdata_chunk_Create 1 1 True)\<lparr>N := 1\<rparr>), Finish 0,
      Return 0 eslOK (Some ((dsqdata_chunk_Create 1 1 True)\<lparr>N := 1\<rparr>)),
      Recycle ((dsqdata_chunk_Create 1 1 True)\<lparr>N := 1\<rparr>),
      Put (dsqdata_chunk_Create 1 1 True), Call 0, Take 0 (dsqdata_chunk_Create 1 1 True),
      Finish 0, Return 0 eslEOF None, Call 1, Return 1 eslEOF None] \<noteq> None \<and>
   at_eof (the (exec opened
     [Put ((dsqdata_chunk_Create 1 1 True)\<lparr>N := 1\<rparr>), Call 0,
      Take 0 ((dsqdata_chunk_Create 1 1 True)\<lparr>N := 1\<rparr>), Finish 0,
      Return 0 eslOK (Some ((dsqdata_chunk_Create 1 1 True)\<lparr>N := 1\<rparr>)),
      Recycle ((dsqdata_chunk_Create 1 1 True)\<lparr>N := 1\<rparr>),
      Put (dsqdata_chunk_Create 1 1 True), Call 0, Take 0 (dsqdata_chunk_Create 1 1 True),
      Finish 0, Return 0 eslEOF None, Call 1, Return 1 eslEOF None])) \<and>
   unpacker_outbox (the (exec opened
     [Put ((dsqdata_chunk_Create 1 1 True)\<lparr>N := 1\<rparr>), Call 0,
      Take 0 ((dsqdata_chunk_Create 1 1 True)\<lparr>N := 1\<rparr>), Finish 0,
      Return 0 eslOK (Some ((dsqdata_chunk_Create 1 1 True)\<lparr>N := 1\<rparr>)),
      Recycle ((dsqdata_chunk_Create 1 1 True)\<lparr>N := 1\<rparr>),
      Put (dsqdata_chunk_Create 1 1 True), Call 0, Take 0 (dsqdata_chunk_Create 1 1 True),
      Finish 0, Return 0 eslEOF None, Call 1, Return 1 eslEOF None])) = None \<and>
   length (filter is_eof_take
     [Put ((dsqdata_chunk_Create 1 1 True)\<lparr>N := 1\<rparr>), Call 0,
      Take 0 ((dsqdata_chunk_Create 1 1 True)\<lparr>N := 1\<rparr>), Finish 0,
      Return 0 eslOK (Some ((dsqdata_chunk_Create 1 1 True)\<lparr>N := 1\<rparr>)),
      Recycle ((dsqdata_chunk_Create 1 1 True)\<lparr>N := 1\<rparr>),
      Put (dsqdata_chunk_Create 1 1 True), Call 0, Take 0 (dsqdata_chunk_Create 1 1 True),
      Finish 0, Return 0 eslEOF None, Call 1, Return 1 eslEOF None]) \<le> 1"
proof -
  let ?c1 = "(dsqdata_chunk_Create 1 1 True)\<lparr>N := 1\<rparr>"
  let ?c0 = "dsqdata_chunk_Create 1 1 True"
  let ?tr = "[Put ?c1, Call 0, Take 0 ?c1, Finish 0, Return 0 eslOK (Some ?c1), Recycle ?c1,
      Put ?c0, Call 0, Take 0 ?c0, Finish 0, Return 0 eslEOF None, Call 1, Return 1 eslEOF None]"
  note n = N_chunk_Create
  have run: "exec opened ?tr \<noteq> None"
    by (simp add: opened_def esl_dsqdata_Recycle_def n)
  then obtain dd where dd: "exec opened ?tr = Some dd" by blast
  have eof: "at_eof dd"
    using dd by (simp add: opened_def esl_dsqdata_Recycle_def n) auto
  note th = read_eof_latching [OF dd]
  from th eof have box: "unpacker_outbox dd = None" by blast
  from th have once: "length (filter is_eof_take ?tr) \<le> 1" by blast
  show ?thesis using run eof box once unfolding dd by simp
qed

section \<open>Writes into the arena\<close>

text \<open>\<open>overwrite m r xs\<close>: the buffer \<open>m\<close> with \<open>xs\<close> stored from offset \<open>r\<close> on.\<close>

definition overwrite :: "'a list \<Rightarrow> nat \<Rightarrow> 'a list \<Rightarrow> 'a list" where
  "overwrite m r xs = take r m @ xs @ drop (r + length xs) m"

lemma length_overwrite: "r + length xs \<le> length m \<Longrightarrow> length (overwrite m r xs) = length m"
  by (simp add: overwrite_def)

lemma nth_overwrite:
  assumes "r + length xs \<le> length m" "j < length m"
  shows "overwrite m r xs ! j = (if r \<le> j \<and> j < r + length xs then xs ! (j - r) else m ! j)"
proof -
  have l: "length (take r m) = r" using assms by simp
  show ?thesis
  proof (cases "j < r")
    case True
    then show ?thesis using l by (simp add: overwrite_def nth_append)
  next
    case False
    show ?thesis
    proof (cases "j < r + length xs")
      case True
      with False have "j - r < length xs" by arith
      with True False l show ?thesis by (simp add: overwrite_def nth_append)
    next
      case False
      with \<open>\<not> j < r\<close> have "j - r - length xs + (r + length xs) = j" "\<not> j - r < length xs"
        by simp_all
      with False \<open>\<not> j < r\<close> l assms show ?thesis
        by (simp add: overwrite_def nth_append)
    qed
  qed
qed

lemma overwrite_Cons:
  assumes "r < length m"
  shows "overwrite (m[r := x]) (Suc r) xs = overwrite m r (x # xs)"
proof -
  have "take (Suc r) (m[r := x]) = take r m @ [x]"
    using assms by (simp add: take_Suc_conv_app_nth)
  then show ?thesis by (simp add: overwrite_def)
qed

lemma overwrite_Nil: "overwrite m r [] = m"
  by (simp add: overwrite_def)

lemma emit_eq:
  "r \<le> length (smem chu) \<Longrightarrow>
   emit xs (chu, r, i) =
     (if r + length xs \<le> length (smem chu)
      then Inr (chu\<lparr>smem := overwrite (smem chu) r xs\<rparr>, r + length xs, i)
      else Inl OutOfBounds)"
proof (induction xs arbitrary: chu r)
  case Nil
  then show ?case by (simp add: overwrite_Nil)
next
  case (Cons x xs)
  show ?case
  proof (cases "r < length (smem chu)")
    case False
    then show ?thesis by simp
  next
    case True
    then have "emit (x # xs) (chu, r, i) = emit xs (chu\<lparr>smem := (smem chu)[r := x]\<rparr>, r + 1, i)"
      by simp
    also have "\<dots> = (if r + 1 + length xs \<le> length (smem chu)
      then Inr (chu\<lparr>smem := overwrite ((smem chu)[r := x]) (r + 1) xs\<rparr>, r + 1 + length xs, i)
      else Inl OutOfBounds)"
      using True by (subst Cons.IH) simp_all
    finally show ?thesis using True by (simp add: overwrite_Cons)
  qed
qed

section \<open>One packet of the unpack loop\<close>

text \<open>The residues that the switch appends for a packet, by its two control bits.\<close>

definition packet_res :: "packet \<Rightarrow> ESL_DSQ list" where
  "packet_res v =
     (if bit v 30 then (if bit v 31 then unpack_5bit_eod v 25 else unpack_5bit v)
      else unpack_2bit v)"

lemma top_bits:
  fixes v :: packet
  shows "drop_bit 30 v = 0 \<longleftrightarrow> \<not> bit v 31 \<and> \<not> bit v 30"
    and "drop_bit 30 v = 1 \<longleftrightarrow> \<not> bit v 31 \<and> bit v 30"
    and "drop_bit 30 v = 2 \<longleftrightarrow> bit v 31 \<and> \<not> bit v 30"
proof -
  have b: "bit (drop_bit 30 v) j \<longleftrightarrow> (j = 0 \<and> bit v 30) \<or> (j = 1 \<and> bit v 31)" for j
  proof -
    have "bit (drop_bit 30 v) j \<longleftrightarrow> bit v (30 + j)" by (simp add: bit_simps)
    moreover have "bit v (30 + j) \<Longrightarrow> j < 2"
      using bit_imp_le_length [of v "30 + j"] by simp
    moreover have "j < 2 \<longleftrightarrow> j = 0 \<or> j = 1" by auto
    ultimately show ?thesis by auto
  qed
  have z: "bit (0 :: packet) j \<longleftrightarrow> False" for j by simp
  have o: "bit (1 :: packet) j \<longleftrightarrow> j = 0" for j by (simp add: bit_simps)
  have t: "bit (2 :: packet) j \<longleftrightarrow> j = 1" for j by (auto simp: bit_simps)
  show "drop_bit 30 v = 0 \<longleftrightarrow> \<not> bit v 31 \<and> \<not> bit v 30"
  proof
    assume e: "drop_bit 30 v = 0"
    show "\<not> bit v 31 \<and> \<not> bit v 30"
      using b [of 0] b [of 1] z unfolding e by simp
  next
    assume "\<not> bit v 31 \<and> \<not> bit v 30"
    then show "drop_bit 30 v = 0"
      by (intro bit_word_eqI) (simp add: b z)
  qed
  show "drop_bit 30 v = 1 \<longleftrightarrow> \<not> bit v 31 \<and> bit v 30"
  proof
    assume e: "drop_bit 30 v = 1"
    show "\<not> bit v 31 \<and> bit v 30"
      using b [of 0] b [of 1] o unfolding e by simp
  next
    assume "\<not> bit v 31 \<and> bit v 30"
    then have "bit (drop_bit 30 v) j \<longleftrightarrow> bit (1 :: packet) j" for j
      unfolding b o by auto
    then show "drop_bit 30 v = 1"
      by (intro bit_word_eqI) blast
  qed
  show "drop_bit 30 v = 2 \<longleftrightarrow> bit v 31 \<and> \<not> bit v 30"
  proof
    assume e: "drop_bit 30 v = 2"
    show "bit v 31 \<and> \<not> bit v 30"
      using b [of 0] b [of 1] t unfolding e by simp
  next
    assume "bit v 31 \<and> \<not> bit v 30"
    then have "bit (drop_bit 30 v) j \<longleftrightarrow> bit (2 :: packet) j" for j
      unfolding b t by auto
    then show "drop_bit 30 v = 2"
      by (intro bit_word_eqI) blast
  qed
qed

lemma unpack_packet_eq:
  "unpack_packet v st =
     (case emit (packet_res v) st of
        Inl e \<Rightarrow> Inl e
      | Inr st' \<Rightarrow> if bit v 31 then finalize st' else Inr st')"
  unfolding unpack_packet_def packet_res_def top_bits
  by (auto split: sum.splits)

lemma length_unpack_5bit_eod:
  "length (unpack_5bit_eod v (5 * int c - 5)) \<le> c"
proof (induction c)
  case 0
  show ?case by (subst unpack_5bit_eod.simps) simp
next
  case (Suc c)
  have "5 * int (Suc c) - 5 - 5 = 5 * int c - 5" by simp
  with Suc show ?case by (subst unpack_5bit_eod.simps) simp
qed

lemma length_packet_res: "length (packet_res v) \<le> 15"
  and length_packet_res5: "bit v 30 \<Longrightarrow> length (packet_res v) \<le> 6"
  using length_unpack_5bit_eod [of v 6]
  by (auto simp: packet_res_def unpack_2bit_def unpack_5bit_def)

lemma overwrite_overwrite:
  assumes "r + length xs \<le> length m"
  shows "overwrite (overwrite m r xs) (r + length xs) ys = overwrite m r (xs @ ys)"
proof -
  have "take (r + length xs) (take r m @ xs @ drop (r + length xs) m) = take r m @ xs"
    using assms by simp
  moreover have "drop (r + length xs + length ys) (take r m @ xs @ drop (r + length xs) m)
                 = drop (r + length xs + length ys) m"
    using assms by (simp add: add.commute add.left_commute)
  ultimately show ?thesis by (simp add: overwrite_def add.assoc)
qed

text \<open>What one packet does to the state, when no access leaves an allocation.\<close>

lemma unpack_packet_step:
  fixes chu :: chunk
  defines "e \<equiv> \<lambda>v :: packet. if bit v 31 then 1 else (0 :: nat)"
  assumes fit: "r + length (packet_res v) + e v \<le> length (smem chu)"
    and arr: "bit v 31 \<Longrightarrow> i < length (dsq chu) \<and> i < length (L chu) \<and>
                (int (i + 1) < N chu \<longrightarrow> i + 1 < length (dsq chu))"
  shows "\<exists>chu'. unpack_packet v (chu, r, i) = Inr (chu', r + length (packet_res v) + e v, i + e v) \<and>
      smem chu' = overwrite (smem chu) r
                    (packet_res v @ (if bit v 31 then [eslDSQ_SENTINEL] else [])) \<and>
      L chu' = (if bit v 31
                then (L chu)[i := int (r + length (packet_res v)) - int (dsq chu ! i) - 1]
                else L chu) \<and>
      dsq chu' = (if bit v 31 \<and> int (i + 1) < N chu
                  then (dsq chu)[i + 1 := r + length (packet_res v)] else dsq chu) \<and>
      psq chu' = psq chu \<and> N chu' = N chu \<and> pn chu' = pn chu"
proof -
  let ?xs = "packet_res v"
  let ?r1 = "r + length ?xs"
  have r: "r \<le> length (smem chu)" "?r1 \<le> length (smem chu)" using fit by simp_all
  have em: "emit ?xs (chu, r, i) = Inr (chu\<lparr>smem := overwrite (smem chu) r ?xs\<rparr>, ?r1, i)"
    using r by (simp add: emit_eq)
  show ?thesis
  proof (cases "bit v 31")
    case False
    then show ?thesis unfolding unpack_packet_eq em e_def by (simp add: overwrite_Nil)
  next
    case True
    let ?c1 = "chu\<lparr>smem := overwrite (smem chu) r ?xs\<rparr>"
    have l1: "length (smem ?c1) = length (smem chu)"
      using r by (simp add: length_overwrite)
    have fit1: "?r1 + 1 \<le> length (smem chu)" using fit True by (simp add: e_def)
    have ow: "overwrite (overwrite (smem chu) r ?xs) ?r1 [eslDSQ_SENTINEL]
              = overwrite (smem chu) r (?xs @ [eslDSQ_SENTINEL])"
      using r(2) by (rule overwrite_overwrite)
    show ?thesis
      unfolding unpack_packet_eq em e_def
      using True arr fit1 r l1 ow
      by (simp add: finalize_def Let_def emit_eq del: emit.simps)
  qed
qed

section \<open>Unpacking in place\<close>

text \<open>The packets as the loader left them in the arena of a chunk.\<close>

definition loaded_packets :: "chunk \<Rightarrow> packet list" where
  "loaded_packets chu = map (\<lambda>pos. rd32 (smem chu) (psq chu + 4 * pos)) [0..<nat (pn chu)]"

lemma rd32_overwrite:
  assumes "r + length xs \<le> a" "a + 4 \<le> length m"
  shows "rd32 (overwrite m r xs) a = rd32 m a"
proof -
  have "overwrite m r xs ! (a + d) = m ! (a + d)" if "d < 4" for d
    using assms that by (subst nth_overwrite) simp_all
  from this [of 0] this [of 1] this [of 2] this [of 3] show ?thesis
    by (simp add: rd32_def)
qed

lemma length_filter_take: "length (filter P (take k xs)) \<le> length (filter P xs)"
proof -
  have "filter P xs = filter P (take k xs) @ filter P (drop k xs)"
    by (metis append_take_drop_id filter_append)
  then show ?thesis by simp
qed

lemma filter_take_Suc:
  "k < length xs \<Longrightarrow>
   filter P (take (Suc k) xs) = filter P (take k xs) @ (if P (xs ! k) then [xs ! k] else [])"
  by (simp add: take_Suc_conv_app_nth)

text \<open>
  The invariant of the packet loop, before packet \<open>k\<close> is picked up: the packets from \<open>k\<close> on
  are in the arena as loaded, the sequence index counts the EOD packets seen, and the
  write cursor is bounded by what \<open>k\<close> packets and \<open>i\<close> sentinels can have written.
\<close>

definition inplace_inv :: "nat \<Rightarrow> chunk \<Rightarrow> packet list \<Rightarrow> ustate \<Rightarrow> nat \<Rightarrow> bool" where
  "inplace_inv rpp chu0 ps st k \<longleftrightarrow>
     length (smem (fst st)) = length (smem chu0) \<and> psq (fst st) = psq chu0 \<and>
     N (fst st) = N chu0 \<and>
     length (dsq (fst st)) = length (dsq chu0) \<and> length (L (fst st)) = length (L chu0) \<and>
     (\<forall>j. k \<le> j \<and> j < length ps \<longrightarrow> rd32 (smem (fst st)) (psq chu0 + 4 * j) = ps ! j) \<and>
     snd (snd st) = length (filter (\<lambda>v. bit v 31) (take k ps)) \<and>
     fst (snd st) \<le> 1 + rpp * k + snd (snd st)"

lemma inplace_step:
  assumes rpp: "rpp = 6 \<or> rpp = 15"
    and U: "length (smem chu0) = rpp * M + maxseq + 1"
    and P: "psq chu0 = rpp * M + maxseq + 1 - 4 * M"
    and arr: "length (dsq chu0) = maxseq" "length (L chu0) = maxseq" "N chu0 \<le> int maxseq"
    and ps: "length ps \<le> M" "length (filter (\<lambda>v. bit v 31) ps) \<le> maxseq"
      "\<forall>v\<in>set ps. length (packet_res v) \<le> rpp"
    and inv: "inplace_inv rpp chu0 ps st k" and k: "k < length ps"
  shows "get_packet (fst st) k = Inr (ps ! k) \<and>
         (\<exists>st'. unpack_packet (ps ! k) st = Inr st' \<and> pn (fst st') = pn (fst st) \<and>
                inplace_inv rpp chu0 ps st' (Suc k))"
proof -
  obtain chu r i where st: "st = (chu, r, i)" by (cases st) auto
  let ?v = "ps ! k"
  let ?n = "length (packet_res ?v)"
  let ?e = "if bit ?v 31 then 1 else (0 :: nat)"
  let ?cnt = "\<lambda>k. length (filter (\<lambda>v. bit v 31) (take k ps))"
  from inv have I: "length (smem chu) = length (smem chu0)" "psq chu = psq chu0" "N chu = N chu0"
    "length (dsq chu) = length (dsq chu0)" "length (L chu) = length (L chu0)"
    "\<And>j. k \<le> j \<Longrightarrow> j < length ps \<Longrightarrow> rd32 (smem chu) (psq chu0 + 4 * j) = ps ! j"
    "i = ?cnt k" "r \<le> 1 + rpp * k + i"
    unfolding inplace_inv_def st by simp_all
  have kM: "k < M" using k ps(1) by simp
  have n: "?n \<le> rpp" using ps(3) k by simp
  have cnt: "?cnt (Suc k) = i + ?e"
    using filter_take_Suc [OF k, of "\<lambda>v. bit v 31"] I(7) by simp
  have "?cnt (Suc k) \<le> length (filter (\<lambda>v. bit v 31) ps)" by (rule length_filter_take)
  with cnt ps(2) have ie: "i + ?e \<le> maxseq" by simp
  have PU: "psq chu0 + 4 * M = length (smem chu0)"
    using rpp unfolding U P by auto
  have gp: "get_packet chu k = Inr ?v"
    using kM PU I(1,2) I(6) [of k] k by (simp add: get_packet_def)
  have r': "r + ?n + ?e \<le> 1 + rpp * Suc k + (i + ?e)"
    using I(8) n by simp
  have fitU: "r + ?n + ?e \<le> length (smem chu)"
    using r' ie kM rpp unfolding I(1) U by auto
  have below: "r + ?n + ?e \<le> psq chu0 + 4 * Suc k"
    using r' ie kM rpp unfolding P by auto
  have arrs: "bit ?v 31 \<Longrightarrow> i < length (dsq chu) \<and> i < length (L chu) \<and>
                (int (i + 1) < N chu \<longrightarrow> i + 1 < length (dsq chu))"
    using ie arr unfolding I(3,4,5) by auto
  from unpack_packet_step [OF fitU arrs]
  obtain chu' where step: "unpack_packet ?v (chu, r, i) = Inr (chu', r + ?n + ?e, i + ?e)"
    and sm: "smem chu' = overwrite (smem chu) r
                    (packet_res ?v @ (if bit ?v 31 then [eslDSQ_SENTINEL] else []))"
    and Lc: "L chu' = (if bit ?v 31
                then (L chu)[i := int (r + ?n) - int (dsq chu ! i) - 1] else L chu)"
    and dc: "dsq chu' = (if bit ?v 31 \<and> int (i + 1) < N chu
                  then (dsq chu)[i + 1 := r + ?n] else dsq chu)"
    and fr: "psq chu' = psq chu" "N chu' = N chu" "pn chu' = pn chu"
    by auto
  let ?w = "packet_res ?v @ (if bit ?v 31 then [eslDSQ_SENTINEL] else [])"
  have lw: "r + length ?w = r + ?n + ?e" by simp
  have lsm: "length (smem chu') = length (smem chu)"
    unfolding sm using fitU lw by (simp add: length_overwrite del: length_append)
  have frame: "rd32 (smem chu') (psq chu0 + 4 * j) = ps ! j" if "Suc k \<le> j" "j < length ps" for j
  proof -
    have "r + length ?w \<le> psq chu0 + 4 * j" using below that(1) unfolding lw by simp
    moreover have "psq chu0 + 4 * j + 4 \<le> length (smem chu)"
      using that(2) ps(1) PU unfolding I(1) by simp
    ultimately have "rd32 (smem chu') (psq chu0 + 4 * j) = rd32 (smem chu) (psq chu0 + 4 * j)"
      unfolding sm by (rule rd32_overwrite)
    with I(6) [of j] that show ?thesis by simp
  qed
  have "inplace_inv rpp chu0 ps (chu', r + ?n + ?e, i + ?e) (Suc k)"
    unfolding inplace_inv_def
    using lsm fr I(1-5) frame cnt r' Lc dc by auto
  with gp step fr(3) show ?thesis unfolding st by auto
qed

section \<open>The loop body does not depend on \<open>pn\<close>\<close>

definition with_pn :: "int \<Rightarrow> ustate \<Rightarrow> ustate" where
  "with_pn x st = (case st of (c, r, i) \<Rightarrow> (c\<lparr>pn := x\<rparr>, r, i))"

lemma with_pn_simps:
  "with_pn x (c, r, i) = (c\<lparr>pn := x\<rparr>, r, i)"
  "pn (fst (with_pn x st)) = x"
  "with_pn x (with_pn y st) = with_pn x st"
  by (auto simp: with_pn_def split: prod.splits)

lemma with_pn_id: "pn (fst st) = x \<Longrightarrow> with_pn x st = st"
  by (auto simp: with_pn_def split: prod.splits)

lemma pn_last:
  fixes c :: chunk
  shows "c\<lparr>pn := x, smem := s\<rparr> = c\<lparr>smem := s, pn := x\<rparr>"
    and "c\<lparr>pn := x, L := l\<rparr> = c\<lparr>L := l, pn := x\<rparr>"
    and "c\<lparr>pn := x, dsq := d\<rparr> = c\<lparr>dsq := d, pn := x\<rparr>"
  by simp_all

lemma emit_with_pn: "emit xs (with_pn x st) = map_sum id (with_pn x) (emit xs st)"
proof (induction xs st rule: emit.induct)
  case (1 st)
  then show ?case by simp
next
  case (2 y ys chu r i)
  then show ?case by (auto simp: with_pn_simps(1) pn_last)
qed

lemma finalize_with_pn: "finalize (with_pn x st) = map_sum id (with_pn x) (finalize st)"
proof -
  obtain c r i where st: "st = (c, r, i)" by (cases st) auto
  have e: "emit [eslDSQ_SENTINEL] (c'\<lparr>pn := x\<rparr>, r', i')
           = map_sum id (with_pn x) (emit [eslDSQ_SENTINEL] (c', r', i'))" for c' r' i'
    using emit_with_pn [of "[eslDSQ_SENTINEL]" x "(c', r', i')"] by (simp only: with_pn_simps(1))
  show ?thesis
    unfolding st with_pn_simps(1) finalize_def
    by (simp add: Let_def pn_last e del: emit.simps)
qed

lemma unpack_packet_with_pn:
  "unpack_packet v (with_pn x st) = map_sum id (with_pn x) (unpack_packet v st)"
  unfolding unpack_packet_eq emit_with_pn
  by (cases "emit (packet_res v) st") (simp_all add: finalize_with_pn)

lemma get_packet_with_pn: "get_packet (fst (with_pn x st)) k = get_packet (fst st) k"
  by (auto simp: with_pn_def get_packet_def split: prod.splits)

lemma unpack_packets_prefix:
  "k \<le> pos \<Longrightarrow> int pos \<le> B \<Longrightarrow> unpack_packets (with_pn (int pos) st) k = Inr st'
   \<Longrightarrow> unpack_packets (with_pn B st) k = unpack_packets (with_pn B st') pos"
proof (induction "pos - k" arbitrary: k st)
  case 0
  then have k: "k = pos" by simp
  from 0(4) have "st' = with_pn (int pos) st"
    unfolding k by (subst (asm) unpack_packets.simps) (simp add: with_pn_simps)
  then show ?case unfolding k by (simp add: with_pn_simps)
next
  case (Suc d)
  then have k: "k < pos" by simp
  from Suc.prems(3) k obtain v st1 where
    gp: "get_packet (fst st) k = Inr v" and
    step: "unpack_packet v (with_pn (int pos) st) = Inr st1" and
    rest: "unpack_packets st1 (k + 1) = Inr st'"
    by (subst (asm) unpack_packets.simps)
       (auto simp: with_pn_simps get_packet_with_pn split: sum.splits)
  from step obtain st2 where st2: "unpack_packet v st = Inr st2" "st1 = with_pn (int pos) st2"
    unfolding unpack_packet_with_pn by (cases "unpack_packet v st") auto
  have "unpack_packets (with_pn B st2) (Suc k) = unpack_packets (with_pn B st') pos"
    using Suc.hyps(2) k Suc.prems(2) rest unfolding st2(2)
    by (intro Suc.hyps(1)) simp_all
  moreover have "unpack_packets (with_pn B st) k = unpack_packets (with_pn B st2) (k + 1)"
    using k Suc.prems(2) gp st2(1)
    by (subst unpack_packets.simps)
       (simp add: with_pn_simps get_packet_with_pn unpack_packet_with_pn)
  ultimately show ?case by simp
qed

lemma inplace_loop:
  assumes rpp: "rpp = 6 \<or> rpp = 15"
    and U: "length (smem chu0) = rpp * M + maxseq + 1"
    and P: "psq chu0 = rpp * M + maxseq + 1 - 4 * M"
    and arr: "length (dsq chu0) = maxseq" "length (L chu0) = maxseq" "N chu0 \<le> int maxseq"
    and ps: "length ps \<le> M" "length (filter (\<lambda>v. bit v 31) ps) \<le> maxseq"
      "\<forall>v\<in>set ps. length (packet_res v) \<le> rpp"
    and B: "B \<le> length ps"
  shows "pn (fst st) = int B \<Longrightarrow> k \<le> B \<Longrightarrow> inplace_inv rpp chu0 ps st k \<Longrightarrow>
         \<exists>st'. unpack_packets st k = Inr st' \<and> inplace_inv rpp chu0 ps st' B"
proof (induction "B - k" arbitrary: k st)
  case 0
  then have "k = B" by simp
  with 0 show ?case by (subst unpack_packets.simps) simp
next
  case (Suc d)
  then have k: "k < B" by simp
  with B have kl: "k < length ps" by simp
  from inplace_step [OF rpp U P arr ps Suc.prems(3) kl]
  obtain st' where gp: "get_packet (fst st) k = Inr (ps ! k)"
    and step: "unpack_packet (ps ! k) st = Inr st'" and pn': "pn (fst st') = pn (fst st)"
    and inv': "inplace_inv rpp chu0 ps st' (Suc k)"
    by blast
  have "\<exists>st''. unpack_packets st' (Suc k) = Inr st'' \<and> inplace_inv rpp chu0 ps st'' B"
    using Suc.hyps(2) k pn' Suc.prems(1) inv' by (intro Suc.hyps(1)) simp_all
  moreover have "unpack_packets st k = unpack_packets st' (k + 1)"
    using k Suc.prems(1) gp step by (subst unpack_packets.simps) simp
  ultimately show ?case by simp
qed

text \<open>
  Claim C4, with what the code needs in addition. The chunk has the arena of
  \<^verbatim>\<open>dsqdata_chunk_Create\<close>: \<open>U = residues_per_packet \<times> chunk_maxpacket + chunk_maxseq + 1\<close>
  bytes, the packets in its last \<open>4 \<times> chunk_maxpacket\<close> bytes; \<open>pn \<le> chunk_maxpacket\<close>,
  \<open>N \<le> chunk_maxseq\<close>, exactly \<open>N\<close> of the loaded packets carry the EOD bit; and, in the arena
  of a protein reader (6 residues per packet), every loaded packet is a 5-bit packet. Then
  for every \<open>pos \<le> pn\<close> the routine gets through the first \<open>pos\<close> packets without leaving an
  allocation, and when it is about to pick up packet \<open>pos\<close> its write cursor \<open>r\<close> has not
  passed the first byte of that packet (\<open>r \<le> psq + 4 pos\<close>), the packets \<open>pos, ..., pn - 1\<close>
  are still in the arena as loaded, and \<open>r \<le> U\<close>; for \<open>pos = pn\<close> this is the end of the loop.
  The state before packet \<open>pos\<close> is that of the routine on the chunk with \<open>pn\<close> set to \<open>pos\<close>
  (the body of the loop does not look at \<open>pn\<close>); the last conjunct says that the routine on
  the whole chunk goes on from this state, at packet \<open>pos\<close>.
\<close>

theorem unpack_in_place:
  assumes ms: "0 < chunk_maxseq"
    and U: "length (smem chu) = chunk_U chunk_maxseq chunk_maxpacket pack5"
    and P: "psq chu = chunk_U chunk_maxseq chunk_maxpacket pack5 - 4 * chunk_maxpacket"
    and arr: "length (dsq chu) = chunk_maxseq" "length (L chu) = chunk_maxseq"
    and pn0: "0 \<le> pn chu" and pn: "pn chu \<le> int chunk_maxpacket"
    and N: "N chu \<le> int chunk_maxseq"
    and eod: "int (length (filter (\<lambda>v. bit v 31) (loaded_packets chu))) = N chu"
    and five: "pack5 \<longrightarrow> list_all (\<lambda>v. bit v 30) (loaded_packets chu)"
    and pos: "pos \<le> nat (pn chu)"
  shows "\<exists>chu' r i. unpack_residues (chu\<lparr>pn := int pos\<rparr>) = Inr (chu', r, i) \<and>
           r \<le> psq chu + 4 * pos \<and> r \<le> chunk_U chunk_maxseq chunk_maxpacket pack5 \<and>
           (\<forall>k. pos \<le> k \<and> k < nat (pn chu) \<longrightarrow> get_packet chu' k = get_packet chu k) \<and>
           unpack_residues chu = unpack_packets (chu'\<lparr>pn := pn chu\<rparr>, r, i) pos"
proof -
  define rpp :: nat where "rpp = (if pack5 then 6 else 15)"
  define M where "M = chunk_maxpacket"
  define ps where "ps = loaded_packets chu"
  define c where "c = chu\<lparr>pn := int pos\<rparr>"
  let ?S = eslDSQ_SENTINEL
  define st0 :: ustate
    where "st0 = (c\<lparr>dsq := (dsq c)[0 := 0], smem := overwrite (smem c) 0 [?S]\<rparr>, 1, 0)"
  have rpp: "rpp = 6 \<or> rpp = 15" unfolding rpp_def by simp
  have Uc: "length (smem c) = rpp * M + chunk_maxseq + 1"
    unfolding c_def rpp_def M_def using U by (simp add: chunk_U_def)
  have Pc: "psq c = rpp * M + chunk_maxseq + 1 - 4 * M"
    unfolding c_def rpp_def M_def using P by (simp add: chunk_U_def)
  have arrc: "length (dsq c) = chunk_maxseq" "length (L c) = chunk_maxseq"
    "N c \<le> int chunk_maxseq"
    unfolding c_def using arr N by simp_all
  have lps: "length ps = nat (pn chu)" unfolding ps_def loaded_packets_def by simp
  have psM: "length ps \<le> M" unfolding lps M_def using pn by simp
  have cnt: "length (filter (\<lambda>v. bit v 31) ps) \<le> chunk_maxseq"
    using eod N unfolding ps_def by simp
  have res: "\<forall>v\<in>set ps. length (packet_res v) \<le> rpp"
  proof
    fix v assume v: "v \<in> set ps"
    show "length (packet_res v) \<le> rpp"
    proof (cases pack5)
      case True
      with five v have "bit v 30" unfolding ps_def list_all_iff by simp
      then show ?thesis using True length_packet_res5 [of v] unfolding rpp_def by simp
    next
      case False
      then show ?thesis using length_packet_res [of v] unfolding rpp_def by simp
    qed
  qed
  have B: "pos \<le> length ps" unfolding lps by (rule pos)
  have PU: "psq c + 4 * M = length (smem c)" using rpp unfolding Uc Pc by auto
  have P1: "1 \<le> psq c" using rpp unfolding Pc by auto
  have ps_nth: "ps ! j = rd32 (smem c) (psq c + 4 * j)" if "j < length ps" for j
    using that unfolding ps_def loaded_packets_def c_def by simp
  have init: "unpack_residues c = unpack_packets st0 0"
    unfolding unpack_residues_def st0_def using arrc(1) ms Uc
    by (simp add: emit_eq del: emit.simps)
  have lsm0: "length (smem (fst st0)) = length (smem c)"
    unfolding st0_def using Uc by (simp add: length_overwrite)
  have frame0: "rd32 (smem (fst st0)) (psq c + 4 * j) = ps ! j" if "j < length ps" for j
  proof -
    have "0 + length [?S] \<le> psq c + 4 * j" using P1 by simp
    moreover have "psq c + 4 * j + 4 \<le> length (smem c)" using that psM PU by simp
    ultimately have "rd32 (overwrite (smem c) 0 [?S]) (psq c + 4 * j) = rd32 (smem c) (psq c + 4 * j)"
      by (rule rd32_overwrite)
    then show ?thesis unfolding st0_def using ps_nth [OF that] by simp
  qed
  have inv0: "inplace_inv rpp c ps st0 0"
    unfolding inplace_inv_def using lsm0 frame0 by (simp add: st0_def)
  have pnc: "pn (fst st0) = int pos" unfolding st0_def c_def by simp
  from inplace_loop [OF rpp Uc Pc arrc psM cnt res B pnc _ inv0]
  obtain st' where run: "unpack_packets st0 0 = Inr st'" and inv: "inplace_inv rpp c ps st' pos"
    by auto
  obtain chu' r i where st': "st' = (chu', r, i)" by (cases st') auto
  from inv have I: "length (smem chu') = length (smem c)" "psq chu' = psq c"
    "\<And>j. pos \<le> j \<Longrightarrow> j < length ps \<Longrightarrow> rd32 (smem chu') (psq c + 4 * j) = ps ! j"
    "i = length (filter (\<lambda>v. bit v 31) (take pos ps))" "r \<le> 1 + rpp * pos + i"
    unfolding inplace_inv_def st' by simp_all
  have "i \<le> length (filter (\<lambda>v. bit v 31) ps)" unfolding I(4) by (rule length_filter_take)
  with cnt have i: "i \<le> chunk_maxseq" by simp
  have posM: "pos \<le> M" using B psM by simp
  have r1: "r \<le> psq c + 4 * pos" using I(5) i posM rpp unfolding Pc by auto
  have r2: "r \<le> length (smem c)" using I(5) i posM rpp unfolding Uc by auto
  have gp: "get_packet chu' k = get_packet chu k" if "pos \<le> k" "k < nat (pn chu)" for k
  proof -
    have kl: "k < length ps" using that(2) unfolding lps .
    then have b: "psq c + 4 * k + 4 \<le> length (smem c)" using psM PU by simp
    have "get_packet chu' k = Inr (ps ! k)"
      using b I(1,2) I(3) [OF that(1) kl] by (simp add: get_packet_def)
    moreover have "get_packet chu k = Inr (ps ! k)"
      using b ps_nth [OF kl] unfolding c_def by (simp add: get_packet_def)
    ultimately show ?thesis by simp
  qed
  have "unpack_residues (chu\<lparr>pn := int pos\<rparr>) = Inr (chu', r, i)"
    using init run unfolding c_def st' by simp
  moreover have "r \<le> psq chu + 4 * pos" using r1 unfolding c_def by simp
  moreover have "r \<le> chunk_U chunk_maxseq chunk_maxpacket pack5"
    using r2 U unfolding c_def by simp
  moreover have "unpack_residues chu = unpack_packets (chu'\<lparr>pn := pn chu\<rparr>, r, i) pos"
  proof -
    have "unpack_residues chu = unpack_packets (with_pn (pn chu) st0) 0"
      unfolding unpack_residues_def st0_def c_def with_pn_simps(1) using arr(1) ms U
      by (simp add: emit_eq chunk_U_def del: emit.simps)
    also have "\<dots> = unpack_packets (with_pn (pn chu) st') pos"
    proof (rule unpack_packets_prefix)
      show "0 \<le> pos" by simp
      show "int pos \<le> pn chu" using pos pn0 by simp
      show "unpack_packets (with_pn (int pos) st0) 0 = Inr st'"
        using run pnc by (simp add: with_pn_id)
    qed
    finally show ?thesis unfolding st' with_pn_simps(1) .
  qed
  ultimately show ?thesis using gp by blast
qed

text \<open>
  The theorem at a protein chunk of a reader with \<open>chunk_maxseq = 2\<close>, \<open>chunk_maxpacket = 2\<close>
  (\<open>U = 15\<close>, packets at offset 7) holding two sequences of one residue each, before the
  second packet is picked up: the cursor is at 3 and the second packet is intact.
\<close>

theorem unpack_in_place_witness:
  "fst (snd (projr (unpack_residues
     (\<lparr>i0 = 0, N = 2, pn = 2, dsq = [0, 0], name = [0, 0], acc = [0, 0], desc = [0, 0],
       taxid = [0, 0], L = [0, 0], metadata = replicate 40 0, mdalloc = 40,
       smem = [0, 0, 0, 0, 0, 0, 0, 0xFF, 0xFF, 0xFF, 0xC3, 0xFF, 0xFF, 0xFF, 0xC5],
       psq = 7\<rparr>\<lparr>pn := int 1\<rparr>)))) \<le> 7 + 4 * 1 \<and>
   get_packet (fst (projr (unpack_residues
     (\<lparr>i0 = 0, N = 2, pn = 2, dsq = [0, 0], name = [0, 0], acc = [0, 0], desc = [0, 0],
       taxid = [0, 0], L = [0, 0], metadata = replicate 40 0, mdalloc = 40,
       smem = [0, 0, 0, 0, 0, 0, 0, 0xFF, 0xFF, 0xFF, 0xC3, 0xFF, 0xFF, 0xFF, 0xC5],
       psq = 7\<rparr>\<lparr>pn := int 1\<rparr>)))) 1 = Inr 0xC5FFFFFF"
proof -
  let ?c = "\<lparr>i0 = 0, N = 2, pn = 2, dsq = [0, 0], name = [0, 0], acc = [0, 0], desc = [0, 0],
       taxid = [0, 0], L = [0, 0], metadata = replicate 40 0, mdalloc = 40,
       smem = [0, 0, 0, 0, 0, 0, 0, 0xFF, 0xFF, 0xFF, 0xC3, 0xFF, 0xFF, 0xFF, 0xC5],
       psq = 7\<rparr>"
  have lp: "loaded_packets ?c = [0xC3FFFFFF, 0xC5FFFFFF]"
    by (simp add: loaded_packets_def rd32_def upt_rec)
  have h: "0 < (2::nat)" "length (smem ?c) = chunk_U 2 2 True"
    "psq ?c = chunk_U 2 2 True - 4 * 2" "length (dsq ?c) = 2" "length (L ?c) = 2"
    "0 \<le> pn ?c" "pn ?c \<le> int 2" "N ?c \<le> int 2"
    "int (length (filter (\<lambda>v. bit v 31) (loaded_packets ?c))) = N ?c"
    "True \<longrightarrow> list_all (\<lambda>v. bit v 30) (loaded_packets ?c)"
    "1 \<le> nat (pn ?c)"
    unfolding lp by (simp_all add: chunk_U_def)
  from unpack_in_place [OF h]
  obtain chu' r i where run: "unpack_residues (?c\<lparr>pn := int 1\<rparr>) = Inr (chu', r, i)"
    and r: "r \<le> psq ?c + 4 * 1"
    and k: "\<forall>k. 1 \<le> k \<and> k < nat (pn ?c) \<longrightarrow> get_packet chu' k = get_packet ?c k"
    by blast
  from k have "get_packet chu' 1 = get_packet ?c 1" by simp
  also have "\<dots> = Inr 0xC5FFFFFF" by (simp add: get_packet_def rd32_def)
  finally show ?thesis using r unfolding run by simp
qed

text \<open>
  Claim C4 as the specification words it does not say which packets the chunk holds. In the
  arena of a protein reader with \<open>chunk_maxseq = 1\<close>, \<open>chunk_maxpacket = 1\<close> (\<open>U = 8\<close>, the
  packet at offset 4), one 2-bit EOD packet is a stream of \<open>pn = 1 \<le> chunk_maxpacket\<close> packets
  with exactly \<open>N = 1\<close> EOD packet; it unpacks to 15 residues, and the routine writes past
  the \<open>U\<close> bytes of the arena.
\<close>

theorem unpack_in_place_counterexample:
  "length (smem \<lparr>i0 = 0, N = 1, pn = 1, dsq = [0], name = [0], acc = [0], desc = [0],
       taxid = [0], L = [0], metadata = replicate 20 0, mdalloc = 20,
       smem = [0, 0, 0, 0, 0, 0, 0, 0x80], psq = 4\<rparr>) = chunk_U 1 1 True \<and>
   psq \<lparr>i0 = 0, N = 1, pn = 1, dsq = [0], name = [0], acc = [0], desc = [0],
       taxid = [0], L = [0], metadata = replicate 20 0, mdalloc = 20,
       smem = [0, 0, 0, 0, 0, 0, 0, 0x80], psq = 4\<rparr> = chunk_U 1 1 True - 4 * 1 \<and>
   loaded_packets \<lparr>i0 = 0, N = 1, pn = 1, dsq = [0], name = [0], acc = [0], desc = [0],
       taxid = [0], L = [0], metadata = replicate 20 0, mdalloc = 20,
       smem = [0, 0, 0, 0, 0, 0, 0, 0x80], psq = 4\<rparr> = [0x80000000] \<and>
   length (filter (\<lambda>v. bit v 31) [0x80000000 :: packet]) = 1 \<and>
   unpack_residues \<lparr>i0 = 0, N = 1, pn = 1, dsq = [0], name = [0], acc = [0], desc = [0],
       taxid = [0], L = [0], metadata = replicate 20 0, mdalloc = 20,
       smem = [0, 0, 0, 0, 0, 0, 0, 0x80], psq = 4\<rparr> = Inl OutOfBounds"
  by (simp add: unpack_eval loaded_packets_def chunk_U_def upt_rec)

section \<open>The layout of the unpacked arena\<close>

text \<open>Every unpacked residue is a 2-bit or a 5-bit field, so it is never the sentinel byte.\<close>

lemma res5_le31: "res5 v s \<le> 31"
proof -
  have "res5 v s = take_bit 5 (res5 v s)"
    unfolding res5_def m31 by (rule bit_word_eqI) (auto simp: bit_simps)
  then have "unat (res5 v s) = take_bit 5 (unat (res5 v s))"
    by (metis unsigned_take_bit_eq)
  also have "\<dots> < 2 ^ 5" by (rule take_bit_nat_less_exp)
  finally show ?thesis by (simp add: word_le_nat_alt)
qed

lemma res2_le31: "res2 v s \<le> 31"
proof -
  have "res2 v s = take_bit 2 (res2 v s)"
    unfolding res2_def m3 by (rule bit_word_eqI) (auto simp: bit_simps)
  then have "unat (res2 v s) = take_bit 2 (unat (res2 v s))"
    by (metis unsigned_take_bit_eq)
  also have "\<dots> < 2 ^ 2" by (rule take_bit_nat_less_exp)
  finally show ?thesis by (simp add: word_le_nat_alt)
qed

lemma unpack_5bit_eod_le31: "\<forall>x\<in>set (unpack_5bit_eod v b). x \<le> 31"
proof (induction v b rule: unpack_5bit_eod.induct)
  case (1 v b)
  show ?case
  proof (cases "0 \<le> b \<and> drop_bit (nat b) v AND 31 \<noteq> 31")
    case True
    with 1 show ?thesis by (subst unpack_5bit_eod.simps) (simp add: res5_le31)
  next
    case False
    then show ?thesis by (subst unpack_5bit_eod.simps) auto
  qed
qed

lemma packet_res_le31: "x \<in> set (packet_res v) \<Longrightarrow> x \<le> 31"
  using unpack_5bit_eod_le31 [of v 25]
  by (auto simp: packet_res_def unpack_2bit_def unpack_5bit_def res5_le31 res2_le31
      split: if_splits)

text \<open>
  What a packet that was unpacked without an error says about the state before it: its
  residues and, for an end-of-data packet, the closing sentinel fitted into the arena, and
  the stores to \<open>L[i]\<close> and \<open>dsq[i + 1]\<close> were inside the arrays.
\<close>

lemma unpack_packet_InrD:
  assumes ok: "unpack_packet v (chu, r, i) = Inr st'" and r: "r \<le> length (smem chu)"
  shows "r + length (packet_res v) + (if bit v 31 then 1 else 0) \<le> length (smem chu)"
    and "bit v 31 \<Longrightarrow> i < length (dsq chu) \<and> i < length (L chu) \<and>
                (int (i + 1) < N chu \<longrightarrow> i + 1 < length (dsq chu))"
proof -
  let ?xs = "packet_res v"
  have fit0: "r + length ?xs \<le> length (smem chu)"
    using ok r unfolding unpack_packet_eq by (auto simp: emit_eq split: if_splits)
  then have em: "emit ?xs (chu, r, i)
      = Inr (chu\<lparr>smem := overwrite (smem chu) r ?xs\<rparr>, r + length ?xs, i)"
    using r by (simp add: emit_eq)
  have l1: "length (overwrite (smem chu) r ?xs) = length (smem chu)"
    using fit0 by (rule length_overwrite)
  have fin: "bit v 31 \<Longrightarrow>
     finalize (chu\<lparr>smem := overwrite (smem chu) r ?xs\<rparr>, r + length ?xs, i) = Inr st'"
    using ok unfolding unpack_packet_eq em by simp
  show "bit v 31 \<Longrightarrow> i < length (dsq chu) \<and> i < length (L chu) \<and>
                (int (i + 1) < N chu \<longrightarrow> i + 1 < length (dsq chu))"
    using fin by (auto simp: finalize_def Let_def split: if_splits)
  show "r + length ?xs + (if bit v 31 then 1 else 0) \<le> length (smem chu)"
  proof (cases "bit v 31")
    case False
    with fit0 show ?thesis by simp
  next
    case True
    from fin [OF True] have "r + length ?xs + 1 \<le> length (smem chu)"
      using l1 fit0
      by (auto simp: finalize_def Let_def emit_eq simp del: emit.simps split: if_splits)
    with True show ?thesis by simp
  qed
qed

text \<open>
  A finalized sequence \<open>k\<close>, in a state with write cursor \<open>r\<close>: sentinels at \<open>dsq[k]\<close> and at
  \<open>dsq[k] + L[k] + 1\<close>, residue codes in between, all below the cursor, and the next
  sequence (when there is one) starting at the closing sentinel.
\<close>

definition seq_done :: "chunk \<Rightarrow> nat \<Rightarrow> nat \<Rightarrow> bool" where
  "seq_done chu r k \<longleftrightarrow>
     k < length (dsq chu) \<and> k < length (L chu) \<and>
     smem chu ! (dsq chu ! k) = eslDSQ_SENTINEL \<and> 0 \<le> L chu ! k \<and>
     dsq chu ! k + nat (L chu ! k) + 1 < r \<and>
     smem chu ! (dsq chu ! k + nat (L chu ! k) + 1) = eslDSQ_SENTINEL \<and>
     (\<forall>j. dsq chu ! k < j \<and> j \<le> dsq chu ! k + nat (L chu ! k) \<longrightarrow> smem chu ! j \<le> 31) \<and>
     (int (Suc k) < N chu \<longrightarrow>
        Suc k < length (dsq chu) \<and> dsq chu ! Suc k = dsq chu ! k + nat (L chu ! k) + 1)"

text \<open>The sequence \<open>i\<close> being unpacked: its leading sentinel and the residues written so far.\<close>

definition seq_open :: "chunk \<Rightarrow> nat \<Rightarrow> nat \<Rightarrow> bool" where
  "seq_open chu r i \<longleftrightarrow>
     i < length (dsq chu) \<and> dsq chu ! i < r \<and> smem chu ! (dsq chu ! i) = eslDSQ_SENTINEL \<and>
     (\<forall>j. dsq chu ! i < j \<and> j < r \<longrightarrow> smem chu ! j \<le> 31)"

definition layout_inv :: "ustate \<Rightarrow> bool" where
  "layout_inv st \<longleftrightarrow>
     (case st of (chu, r, i) \<Rightarrow>
        r \<le> length (smem chu) \<and>
        (int i \<le> N chu \<longrightarrow>
           0 < length (dsq chu) \<and> dsq chu ! 0 = 0 \<and>
           (int i < N chu \<longrightarrow> seq_open chu r i) \<and> (\<forall>k<i. seq_done chu r k)))"

lemma seq_done_frame:
  assumes d: "seq_done chu r k" and rr: "r \<le> r'"
    and sm: "\<And>j. j < r \<Longrightarrow> smem chu' ! j = smem chu ! j"
    and len: "length (dsq chu') = length (dsq chu)" "length (L chu') = length (L chu)"
    and N: "N chu' = N chu"
    and dk: "dsq chu' ! k = dsq chu ! k" and Lk: "L chu' ! k = L chu ! k"
    and dn: "int (Suc k) < N chu \<Longrightarrow> dsq chu' ! Suc k = dsq chu ! Suc k"
  shows "seq_done chu' r' k"
proof -
  let ?a = "dsq chu ! k" and ?e = "dsq chu ! k + nat (L chu ! k) + 1"
  from d have D: "k < length (dsq chu)" "k < length (L chu)"
    "smem chu ! ?a = eslDSQ_SENTINEL" "0 \<le> L chu ! k" "?e < r"
    "smem chu ! ?e = eslDSQ_SENTINEL"
    "\<And>j. ?a < j \<Longrightarrow> j \<le> ?a + nat (L chu ! k) \<Longrightarrow> smem chu ! j \<le> 31"
    "int (Suc k) < N chu \<Longrightarrow> Suc k < length (dsq chu) \<and> dsq chu ! Suc k = ?e"
    unfolding seq_done_def by simp_all
  have a: "?a < r" using D(5) by simp
  have "smem chu' ! j \<le> 31" if "?a < j" "j \<le> ?a + nat (L chu ! k)" for j
  proof -
    from that D(5) have "j < r" by simp
    with sm [of j] D(7) [OF that] show ?thesis by simp
  qed
  then show ?thesis
    unfolding seq_done_def dk Lk len N
    using D(1,2,4,5) rr sm [OF a] sm [OF D(5)] D(3,6) D(8) dn by auto
qed

lemma layout_step:
  assumes inv: "layout_inv (chu, r, i)" and ok: "unpack_packet v (chu, r, i) = Inr st'"
  shows "layout_inv st' \<and> N (fst st') = N chu"
proof -
  let ?xs = "packet_res v"
  let ?n = "length (packet_res v)"
  let ?e = "if bit v 31 then 1 else (0 :: nat)"
  let ?w = "packet_res v @ (if bit v 31 then [eslDSQ_SENTINEL] else [])"
  from inv have r: "r \<le> length (smem chu)" by (simp add: layout_inv_def)
  note D = unpack_packet_InrD [OF ok r]
  from unpack_packet_step [OF D(1) D(2)]
  obtain chu' where step: "unpack_packet v (chu, r, i) = Inr (chu', r + ?n + ?e, i + ?e)"
    and sm: "smem chu' = overwrite (smem chu) r ?w"
    and Lc: "L chu' = (if bit v 31
                then (L chu)[i := int (r + ?n) - int (dsq chu ! i) - 1] else L chu)"
    and dc: "dsq chu' = (if bit v 31 \<and> int (i + 1) < N chu
                  then (dsq chu)[i + 1 := r + ?n] else dsq chu)"
    and fr: "N chu' = N chu"
    by auto
  from step ok have st': "st' = (chu', r + ?n + ?e, i + ?e)" by simp
  have lw: "r + length ?w = r + ?n + ?e" by simp
  have fitw: "r + length ?w \<le> length (smem chu)" using D(1) unfolding lw .
  have lsm: "length (smem chu') = length (smem chu)"
    unfolding sm using fitw by (rule length_overwrite)
  have nth: "smem chu' ! j = (if r \<le> j \<and> j < r + length ?w then ?w ! (j - r) else smem chu ! j)"
    if "j < length (smem chu)" for j
    unfolding sm using fitw that by (rule nth_overwrite)
  have old: "smem chu' ! j = smem chu ! j" if "j < r" for j
    using nth [of j] that r by simp
  have new: "smem chu' ! j \<le> 31" if "r \<le> j" "j < r + ?n" for j
  proof -
    have j: "j < length (smem chu)" using that D(1) by simp
    have "j - r < ?n" using that by simp
    then have "?w ! (j - r) = ?xs ! (j - r)" "?xs ! (j - r) \<in> set ?xs"
      by (simp_all add: nth_append)
    then have "?w ! (j - r) \<le> 31" using packet_res_le31 [of "?xs ! (j - r)" v] by simp
    then show ?thesis using nth [OF j] that by simp
  qed
  have sent: "smem chu' ! (r + ?n) = eslDSQ_SENTINEL" if "bit v 31"
  proof -
    have j: "r + ?n < length (smem chu)" using that D(1) by simp
    show ?thesis using nth [OF j] that by (simp add: nth_append)
  qed
  have ld: "length (dsq chu') = length (dsq chu)" unfolding dc by simp
  have lL: "length (L chu') = length (L chu)" unfolding Lc by simp
  have rle: "r + ?n + ?e \<le> length (smem chu')" using D(1) unfolding lsm .
  have body: "0 < length (dsq chu') \<and> dsq chu' ! 0 = 0 \<and>
           (int (i + ?e) < N chu' \<longrightarrow> seq_open chu' (r + ?n + ?e) (i + ?e)) \<and>
           (\<forall>k<i + ?e. seq_done chu' (r + ?n + ?e) k)"
    if iN: "int (i + ?e) \<le> N chu'"
  proof -
    from iN have iN0: "int i \<le> N chu" unfolding fr by (simp split: if_splits)
    with inv have I: "0 < length (dsq chu)" "dsq chu ! 0 = 0"
      "int i < N chu \<Longrightarrow> seq_open chu r i" "\<And>k. k < i \<Longrightarrow> seq_done chu r k"
      by (simp_all add: layout_inv_def)
    have d0: "dsq chu' ! 0 = 0" unfolding dc using I(2) by simp
    have l0: "0 < length (dsq chu')" unfolding ld by (rule I(1))
    have prev: "seq_done chu' (r + ?n + ?e) k" if k: "k < i" for k
    proof (rule seq_done_frame [OF I(4) [OF k]])
      show "r \<le> r + ?n + ?e" by simp
      show "smem chu' ! j = smem chu ! j" if "j < r" for j using that by (rule old)
      show "length (dsq chu') = length (dsq chu)" by (rule ld)
      show "length (L chu') = length (L chu)" by (rule lL)
      show "N chu' = N chu" by (rule fr)
      show "dsq chu' ! k = dsq chu ! k" unfolding dc using k by simp
      show "L chu' ! k = L chu ! k" unfolding Lc using k by simp
      show "dsq chu' ! Suc k = dsq chu ! Suc k" unfolding dc using k by simp
    qed
    show ?thesis
    proof (cases "bit v 31")
      case False
      then have dd: "dsq chu' = dsq chu" unfolding dc by simp
      have "seq_open chu' (r + ?n + ?e) (i + ?e)" if "int (i + ?e) < N chu'"
      proof -
        from that False have "int i < N chu" unfolding fr by simp
        from I(3) [OF this] have O: "i < length (dsq chu)" "dsq chu ! i < r"
          "smem chu ! (dsq chu ! i) = eslDSQ_SENTINEL"
          "\<And>j. dsq chu ! i < j \<Longrightarrow> j < r \<Longrightarrow> smem chu ! j \<le> 31"
          unfolding seq_open_def by simp_all
        have "smem chu' ! j \<le> 31" if "dsq chu ! i < j" "j < r + ?n" for j
        proof (cases "j < r")
          case True
          with O(4) [OF that(1)] old [of j] show ?thesis by simp
        next
          case False
          with new [of j] that show ?thesis by simp
        qed
        then show ?thesis
          unfolding seq_open_def dd using False O(1,2) old [OF O(2)] O(3) by simp
      qed
      with l0 d0 prev False show ?thesis by simp
    next
      case True
      from iN True have iN1: "int i < N chu" unfolding fr by simp
      from I(3) [OF iN1] have O: "i < length (dsq chu)" "dsq chu ! i < r"
        "smem chu ! (dsq chu ! i) = eslDSQ_SENTINEL"
        "\<And>j. dsq chu ! i < j \<Longrightarrow> j < r \<Longrightarrow> smem chu ! j \<le> 31"
        unfolding seq_open_def by simp_all
      from D(2) [OF True] have A: "i < length (L chu)"
        "int (i + 1) < N chu \<Longrightarrow> i + 1 < length (dsq chu)" by simp_all
      have di: "dsq chu' ! i = dsq chu ! i" unfolding dc by simp
      have Li: "L chu' ! i = int (r + ?n) - int (dsq chu ! i) - 1"
        unfolding Lc using True A(1) by simp
      have Lnat: "dsq chu ! i + nat (L chu' ! i) + 1 = r + ?n" "0 \<le> L chu' ! i"
        unfolding Li using O(2) by simp_all
      have dn: "dsq chu' ! Suc i = r + ?n" "Suc i < length (dsq chu)" if "int (Suc i) < N chu"
        unfolding dc using True that A(2) by simp_all
      have res: "smem chu' ! j \<le> 31" if "dsq chu ! i < j" "j < r + ?n" for j
      proof (cases "j < r")
        case True
        with O(4) [OF that(1)] old [of j] show ?thesis by simp
      next
        case False
        with new [of j] that show ?thesis by simp
      qed
      have cur: "seq_done chu' (r + ?n + 1) i"
        unfolding seq_done_def di ld lL fr Lnat(1)
        using O(1) A(1) old [OF O(2)] O(3) Lnat sent [OF True] res dn by auto
      have opn: "seq_open chu' (r + ?n + 1) (i + 1)" if "int (i + 1) < N chu"
        unfolding seq_open_def ld using dn that sent [OF True] by auto
      have "seq_done chu' (r + ?n + 1) k" if "k < i + 1" for k
      proof (cases "k = i")
        case True
        with cur show ?thesis by simp
      next
        case False
        with that have "k < i" by simp
        from prev [OF this] \<open>bit v 31\<close> show ?thesis by simp
      qed
      with l0 d0 opn True show ?thesis unfolding fr by simp
    qed
  qed
  show ?thesis unfolding st' layout_inv_def using rle body fr by simp
qed

lemma layout_loop:
  "layout_inv st \<Longrightarrow> unpack_packets st pos = Inr st' \<Longrightarrow>
   layout_inv st' \<and> N (fst st') = N (fst st)"
proof (induction st pos rule: unpack_packets.induct)
  case (1 st pos)
  show ?case
  proof (cases "int pos < pn (fst st)")
    case False
    with "1.prems"(2) have "st' = st" by (subst (asm) unpack_packets.simps) simp
    with "1.prems"(1) show ?thesis by simp
  next
    case True
    from "1.prems"(2) True obtain v st1 where gp: "get_packet (fst st) pos = Inr v"
      and up: "unpack_packet v st = Inr st1" and rest: "unpack_packets st1 (pos + 1) = Inr st'"
      by (subst (asm) unpack_packets.simps) (auto split: sum.splits)
    obtain chu r i where st: "st = (chu, r, i)" by (cases st) auto
    from layout_step [of chu r i v st1] "1.prems"(1) up
    have s1: "layout_inv st1" "N (fst st1) = N (fst st)" unfolding st by simp_all
    from "1.IH" [OF True gp up s1(1) rest] s1(2) show ?thesis by simp
  qed
qed

lemma layout_init:
  assumes "emit [eslDSQ_SENTINEL] (chu\<lparr>dsq := (dsq chu)[0 := 0]\<rparr>, 0, 0) = Inr st"
    and "0 < length (dsq chu)"
  shows "layout_inv st \<and> N (fst st) = N chu"
  using assms
  by (auto simp: layout_inv_def seq_open_def Suc_le_eq split: if_splits)

text \<open>
  The linear order of the routine: the metadata pass, then the residue pass, whose chunk is
  returned; a debug build returns it only when the pass has finalized \<open>N\<close> sequences.
\<close>

lemma unpack_metadata_N: "unpack_metadata chu i ptr = Inr (chu', ptr') \<Longrightarrow> N chu' = N chu"
proof (induction chu i ptr rule: unpack_metadata.induct)
  case (1 chu i ptr)
  show ?case
  proof (cases "int i < N chu")
    case False
    with "1.prems" show ?thesis by (subst (asm) unpack_metadata.simps) simp
  next
    case True
    from "1.prems" True obtain c1 p1 where rec: "unpack_metadata_record chu i ptr = Inr (c1, p1)"
      and rest: "unpack_metadata c1 (i + 1) p1 = Inr (chu', ptr')"
      by (subst (asm) unpack_metadata.simps) (auto split: sum.splits)
    from unpack_metadata_record_N [OF rec] "1.IH" [OF True rec refl rest]
    show ?thesis by simp
  qed
qed

lemma finalize_N: "finalize st = Inr st' \<Longrightarrow> N (fst st') = N (fst st)"
  by (auto simp: finalize_def Let_def split: prod.splits if_splits dest!: emit_N)

lemma unpack_packet_N: "unpack_packet v st = Inr st' \<Longrightarrow> N (fst st') = N (fst st)"
  by (auto simp: unpack_packet_def split: if_splits sum.splits dest!: emit_N finalize_N)

lemma unpack_packets_N: "unpack_packets st pos = Inr st' \<Longrightarrow> N (fst st') = N (fst st)"
proof (induction st pos rule: unpack_packets.induct)
  case (1 st pos)
  show ?case
  proof (cases "int pos < pn (fst st)")
    case False
    with "1.prems" show ?thesis by (subst (asm) unpack_packets.simps) simp
  next
    case True
    from "1.prems" True obtain v st1 where gp: "get_packet (fst st) pos = Inr v"
      and up: "unpack_packet v st = Inr st1" and rest: "unpack_packets st1 (pos + 1) = Inr st'"
      by (subst (asm) unpack_packets.simps) (auto split: sum.splits)
    from "1.IH" [OF True gp up rest] unpack_packet_N [OF up] show ?thesis by simp
  qed
qed

lemma unpack_residues_N: "unpack_residues chu = Inr st' \<Longrightarrow> N (fst st') = N chu"
  by (auto simp: unpack_residues_def split: if_splits sum.splits
      dest!: emit_N unpack_packets_N)

lemma dsqdata_unpack_chunk_residues:
  assumes "dsqdata_unpack_chunk debug chu = Inr chu'"
  shows "\<exists>chu1 ptr r i. unpack_metadata chu 0 0 = Inr (chu1, ptr) \<and> N chu1 = N chu \<and>
           unpack_residues chu1 = Inr (chu', r, i) \<and> (debug \<longrightarrow> int i = N chu)"
proof -
  from assms obtain chu1 ptr r i where md: "unpack_metadata chu 0 0 = Inr (chu1, ptr)"
    and rs: "unpack_residues chu1 = Inr (chu', r, i)" and dbg: "debug \<longrightarrow> int i = N chu'"
    by (auto simp: dsqdata_unpack_chunk_def split: sum.splits prod.splits if_splits)
  from unpack_metadata_N [OF md] unpack_residues_N [OF rs] md rs dbg show ?thesis by simp
qed

text \<open>
  Claim C9, with the start pointers where the code puts them. The residue pass sets
  \<^verbatim>\<open>chu->dsq[0] = chu->smem\<close> (offset 0) and writes the first sentinel there; at the end of
  a sequence it sets \<^verbatim>\<open>chu->dsq[i] = &(dsq[r])\<close> and then writes the sentinel at \<open>r\<close>. So
  \<open>dsq[k]\<close> is the offset of the leading sentinel of sequence \<open>k\<close> itself, not the offset just
  past it. When the pass ends without an error having finalized \<open>i \<le> N\<close> sequences (a debug
  build returns the chunk only for \<open>i = N\<close>, see \<open>dsqdata_unpack_chunk_residues\<close>), then for
  every \<open>k < i\<close>: \<open>dsq[0] = 0\<close>; the byte at \<open>dsq[k]\<close> is a sentinel; \<open>L[k] \<ge> 0\<close>; the \<open>L[k]\<close>
  bytes that follow, at \<open>dsq[k] + 1, ..., dsq[k] + L[k]\<close>, are residue codes (at most 31, so
  none is a sentinel); the byte at \<open>dsq[k] + L[k] + 1\<close> is a sentinel again, below the final
  cursor \<open>r\<close>, inside the arena; and, when sequence \<open>k + 1\<close> is one of the \<open>N\<close>, it starts at that
  closing sentinel, \<open>dsq[k + 1] = dsq[k] + L[k] + 1\<close>, which is the cursor at the time sequence
  \<open>k\<close> was finalized: \<open>L[k] = cursor - dsq[k] - 1\<close> is the number of residues of sequence \<open>k\<close>.
\<close>

theorem unpack_layout:
  assumes run: "unpack_residues chu = Inr (chu', r, i)"
    and iN: "int i \<le> N chu" and k: "k < i"
  shows "dsq chu' ! 0 = 0 \<and> k < length (dsq chu') \<and> k < length (L chu') \<and>
         smem chu' ! (dsq chu' ! k) = eslDSQ_SENTINEL \<and>
         0 \<le> L chu' ! k \<and>
         list_all (\<lambda>x. x \<le> 31) (take (nat (L chu' ! k)) (drop (dsq chu' ! k + 1) (smem chu'))) \<and>
         smem chu' ! (dsq chu' ! k + nat (L chu' ! k) + 1) = eslDSQ_SENTINEL \<and>
         dsq chu' ! k + nat (L chu' ! k) + 1 < r \<and> r \<le> length (smem chu') \<and>
         (int (Suc k) < N chu \<longrightarrow> dsq chu' ! Suc k = dsq chu' ! k + nat (L chu' ! k) + 1)"
proof -
  from run obtain st0 where d0: "0 < length (dsq chu)"
    and e0: "emit [eslDSQ_SENTINEL] (chu\<lparr>dsq := (dsq chu)[0 := 0]\<rparr>, 0, 0) = Inr st0"
    and lp: "unpack_packets st0 0 = Inr (chu', r, i)"
    by (auto simp: unpack_residues_def split: if_splits sum.splits)
  from layout_init [OF e0 d0] have i0: "layout_inv st0" "N (fst st0) = N chu" by simp_all
  from layout_loop [OF i0(1) lp] i0(2)
  have inv: "layout_inv (chu', r, i)" and N: "N chu' = N chu" by simp_all
  from inv iN have r: "r \<le> length (smem chu')" and z: "dsq chu' ! 0 = 0"
    and d: "seq_done chu' r k"
    using k by (simp_all add: layout_inv_def N)
  let ?a = "dsq chu' ! k" and ?l = "nat (L chu' ! k)"
  from d have D: "k < length (dsq chu')" "k < length (L chu')"
    "smem chu' ! ?a = eslDSQ_SENTINEL" "0 \<le> L chu' ! k" "?a + ?l + 1 < r"
    "smem chu' ! (?a + ?l + 1) = eslDSQ_SENTINEL"
    "\<And>j. ?a < j \<Longrightarrow> j \<le> ?a + ?l \<Longrightarrow> smem chu' ! j \<le> 31"
    "int (Suc k) < N chu \<Longrightarrow> dsq chu' ! Suc k = ?a + ?l + 1"
    unfolding seq_done_def N by simp_all
  have "list_all (\<lambda>x. x \<le> 31) (take ?l (drop (?a + 1) (smem chu')))"
    unfolding list_all_length
  proof (intro allI impI)
    fix n assume "n < length (take ?l (drop (?a + 1) (smem chu')))"
    then have n: "n < ?l" by simp
    with D(5) r have "take ?l (drop (?a + 1) (smem chu')) ! n = smem chu' ! (?a + 1 + n)"
      by simp
    moreover have "smem chu' ! (?a + 1 + n) \<le> 31" using n by (intro D(7)) simp_all
    ultimately show "take ?l (drop (?a + 1) (smem chu')) ! n \<le> 31" by simp
  qed
  with z D(1-6,8) r show ?thesis by simp
qed

text \<open>
  The theorem at a protein chunk of two sequences, \<open>[1]\<close> and \<open>[2]\<close>, at its first sequence:
  the arena begins \<open>255, 1, 255, 2, 255\<close>, with \<open>dsq = [0, 2]\<close> and \<open>L = [1, 1]\<close>.
\<close>

theorem unpack_layout_witness:
  "\<exists>chu'. unpack_residues
      \<lparr>i0 = 0, N = 2, pn = 2, dsq = [0, 0], name = [0, 0], acc = [0, 0], desc = [0, 0],
       taxid = [0, 0], L = [0, 0], metadata = replicate 40 0, mdalloc = 40,
       smem = [0, 0, 0, 0, 0, 0, 0, 0xFF, 0xFF, 0xFF, 0xC3, 0xFF, 0xFF, 0xFF, 0xC5],
       psq = 7\<rparr> = Inr (chu', 5, 2) \<and>
     dsq chu' ! 0 = 0 \<and> smem chu' ! (dsq chu' ! 0) = eslDSQ_SENTINEL \<and>
     L chu' ! 0 = 1 \<and>
     list_all (\<lambda>x. x \<le> 31) (take (nat (L chu' ! 0)) (drop (dsq chu' ! 0 + 1) (smem chu'))) \<and>
     smem chu' ! (dsq chu' ! 0 + nat (L chu' ! 0) + 1) = eslDSQ_SENTINEL \<and>
     dsq chu' ! Suc 0 = dsq chu' ! 0 + nat (L chu' ! 0) + 1"
proof -
  let ?c = "\<lparr>i0 = 0, N = 2, pn = 2, dsq = [0, 0], name = [0, 0], acc = [0, 0], desc = [0, 0],
       taxid = [0, 0], L = [0, 0], metadata = replicate 40 0, mdalloc = 40,
       smem = [0, 0, 0, 0, 0, 0, 0, 0xFF, 0xFF, 0xFF, 0xC3, 0xFF, 0xFF, 0xFF, 0xC5],
       psq = 7\<rparr>"
  let ?c' = "\<lparr>i0 = 0, N = 2, pn = 2, dsq = [0, 2], name = [0, 0], acc = [0, 0], desc = [0, 0],
       taxid = [0, 0], L = [1, 1], metadata = replicate 40 0, mdalloc = 40,
       smem = [255, 1, 255, 2, 255, 0, 0, 0xFF, 0xFF, 0xFF, 0xC3, 0xFF, 0xFF, 0xFF, 0xC5],
       psq = 7\<rparr>"
  have run: "unpack_residues ?c = Inr (?c', 5, 2)" by (simp add: unpack_eval)
  have h: "int 2 \<le> N ?c" "(0::nat) < 2" by simp_all
  have l: "L ?c' ! 0 = 1" by simp
  from unpack_layout [OF run h] run l show ?thesis by (intro exI [of _ ?c']) simp
qed

text \<open>
  Claim C9 as the specification words it, with \<open>dsq[i]\<close> recorded at offset 1, just past the
  leading sentinel. At a chunk holding the single protein sequence \<open>[1]\<close> the routine returns
  with \<open>dsq[0] = 0\<close>, and the byte at \<open>dsq[0]\<close> is the sentinel; the residue is at offset 1.
\<close>

theorem unpack_layout_counterexample:
  "\<exists>chu'. dsqdata_unpack_chunk True
      \<lparr>i0 = 0, N = 1, pn = 1, dsq = [0], name = [0], acc = [0], desc = [0], taxid = [0], L = [0],
       metadata = [97, 0, 98, 0, 99, 0, 5, 0, 0, 0, 0, 0, 0, 0, 0, 0, 0, 0, 0, 0], mdalloc = 20,
       smem = [0, 0, 0, 0, 0xFF, 0xFF, 0xFF, 0xC3], psq = 4\<rparr> = Inr chu' \<and>
     dsq chu' ! 0 \<noteq> 1 \<and> dsq chu' ! 0 = 0 \<and> smem chu' ! (dsq chu' ! 0) = eslDSQ_SENTINEL \<and>
     L chu' ! 0 = 1 \<and> smem chu' ! 1 = 1 \<and> smem chu' ! 2 = eslDSQ_SENTINEL"
  by (simp add: unpack_eval)

section \<open>Packing in place\<close>

text \<open>
  \<^verbatim>\<open>psq[pos++] = v\<close> with \<^verbatim>\<open>uint32_t *psq = (uint32_t *) dsq\<close>: the packet is stored in the
  four bytes at offset \<open>4 pos\<close> of the buffer the residues are read from (little-endian
  host). A store outside the buffer is an access out of bounds.
\<close>

definition wr32 :: "8 word list \<Rightarrow> nat \<Rightarrow> 32 word \<Rightarrow> 8 word list" where
  "wr32 m a v =
     overwrite m a [ucast v, ucast (drop_bit 8 v), ucast (drop_bit 16 v), ucast (drop_bit 24 v)]"

lemma length_wr32: "a + 4 \<le> length m \<Longrightarrow> length (wr32 m a v) = length m"
  by (simp add: wr32_def length_overwrite)

lemma nth_wr32_other:
  "a + 4 \<le> length m \<Longrightarrow> j < length m \<Longrightarrow> j < a \<or> a + 4 \<le> j \<Longrightarrow> wr32 m a v ! j = m ! j"
  unfolding wr32_def by (subst nth_overwrite) auto

lemma bytes_word32:
  fixes v :: "32 word"
  shows "ucast (ucast v :: 8 word) OR push_bit 8 (ucast (ucast (drop_bit 8 v) :: 8 word))
         OR push_bit 16 (ucast (ucast (drop_bit 16 v) :: 8 word))
         OR push_bit 24 (ucast (ucast (drop_bit 24 v) :: 8 word)) = v"
proof (rule bit_word_eqI)
  fix k :: nat assume k: "k < LENGTH(32)"
  then have k32: "k < 32" by simp
  consider "k < 8" | "8 \<le> k" "k < 16" | "16 \<le> k" "k < 24" | "24 \<le> k" "k < 32"
    using k32 by linarith
  then show "bit (ucast (ucast v :: 8 word) OR push_bit 8 (ucast (ucast (drop_bit 8 v) :: 8 word))
         OR push_bit 16 (ucast (ucast (drop_bit 16 v) :: 8 word))
         OR push_bit 24 (ucast (ucast (drop_bit 24 v) :: 8 word)) :: 32 word) k \<longleftrightarrow> bit v k"
    by cases (auto simp: bit_simps)
qed

lemma rd32_wr32: "a + 4 \<le> length m \<Longrightarrow> rd32 (wr32 m a v) a = v"
proof -
  assume a: "a + 4 \<le> length m"
  let ?w = "[ucast v, ucast (drop_bit 8 v), ucast (drop_bit 16 v), ucast (drop_bit 24 v)] :: 8 word list"
  have "wr32 m a v ! (a + d) = ?w ! d" if "d < 4" for d
    unfolding wr32_def using a that by (subst nth_overwrite) simp_all
  from this [of 0] this [of 1] this [of 2] this [of 3]
  have "rd32 (wr32 m a v) a = ucast (ucast v :: 8 word)
         OR push_bit 8 (ucast (ucast (drop_bit 8 v) :: 8 word))
         OR push_bit 16 (ucast (ucast (drop_bit 16 v) :: 8 word))
         OR push_bit 24 (ucast (ucast (drop_bit 24 v) :: 8 word))"
    by (simp add: rd32_def)
  then show ?thesis by (simp only: bytes_word32)
qed

lemma rd32_wr32_other:
  assumes "a + 4 \<le> length m" "b + 4 \<le> length m" "b + 4 \<le> a \<or> a + 4 \<le> b"
  shows "rd32 (wr32 m a v) b = rd32 m b"
proof -
  have "wr32 m a v ! (b + d) = m ! (b + d)" if "d < 4" for d
    using assms that by (intro nth_wr32_other) auto
  from this [of 0] this [of 1] this [of 2] this [of 3] show ?thesis
    by (simp add: rd32_def)
qed

text \<open>
  The packers on the buffer: the loops of \<^verbatim>\<open>dsqdata_pack5\<close> and \<^verbatim>\<open>dsqdata_pack2\<close> with each
  packet computed from the buffer as it is at that time, then stored into it. They return
  the buffer and \<open>plen\<close>.
\<close>

function dsqdata_pack5_inplace_loop ::
  "ESL_DSQ list \<Rightarrow> nat \<Rightarrow> nat \<Rightarrow> nat \<Rightarrow> failure + ESL_DSQ list \<times> nat" where
  "dsqdata_pack5_inplace_loop mem n r pos =
     (if r \<le> n
      then (if 4 * pos + 4 \<le> length mem
            then dsqdata_pack5_inplace_loop (wr32 mem (4 * pos) (snd (pack5_packet mem n r))) n
                   (fst (pack5_packet mem n r)) (pos + 1)
            else Inl OutOfBounds)
      else Inr (mem, pos))"
  by pat_completeness auto
termination
  by (relation "measure (\<lambda>(mem, n, r, pos). n + 1 - r)")
     (use pack5_packet_r_step in \<open>auto simp: less_diff_conv2 intro: diff_less_mono2\<close>)

declare dsqdata_pack5_inplace_loop.simps [simp del]

definition dsqdata_pack5_inplace :: "ESL_DSQ list \<Rightarrow> nat \<Rightarrow> failure + ESL_DSQ list \<times> nat" where
  "dsqdata_pack5_inplace mem n = dsqdata_pack5_inplace_loop mem n 1 0"

function dsqdata_pack2_inplace_loop ::
  "ESL_DSQ list \<Rightarrow> nat \<Rightarrow> nat \<Rightarrow> nat \<Rightarrow> nat \<Rightarrow> failure + ESL_DSQ list \<times> nat" where
  "dsqdata_pack2_inplace_loop mem n d r pos =
     (if r \<le> n
      then (if 4 * pos + 4 \<le> length mem
            then dsqdata_pack2_inplace_loop
                   (wr32 mem (4 * pos) (snd (snd (pack2_packet mem n d r)))) n
                   (fst (pack2_packet mem n d r)) (fst (snd (pack2_packet mem n d r))) (pos + 1)
            else Inl OutOfBounds)
      else Inr (mem, pos))"
  by pat_completeness auto
termination
  by (relation "measure (\<lambda>(mem, n, d, r, pos). n + 1 - r)")
     (use pack2_packet_r_step in \<open>auto simp: less_diff_conv2 intro: diff_less_mono2\<close>)

declare dsqdata_pack2_inplace_loop.simps [simp del]

definition dsqdata_pack2_inplace :: "ESL_DSQ list \<Rightarrow> nat \<Rightarrow> failure + ESL_DSQ list \<times> nat" where
  "dsqdata_pack2_inplace mem n = dsqdata_pack2_inplace_loop mem n 0 1 0"

lemma take_drop_agree:
  assumes "r + k \<le> length m1" "r + k \<le> length m2"
    and "\<And>j. r \<le> j \<Longrightarrow> j < r + k \<Longrightarrow> m1 ! j = m2 ! j"
  shows "take k (drop r m1) = take k (drop r m2)"
  using assms by (intro nth_equalityI) simp_all

lemma pack5_packet_frame:
  assumes "n < length m1" "length m2 = length m1" "r \<le> n"
    and ag: "\<And>j. r \<le> j \<Longrightarrow> j \<le> n \<Longrightarrow> m1 ! j = m2 ! j"
  shows "pack5_packet m1 n r = pack5_packet m2 n r"
proof -
  have l2: "n < length m2" using assms(1,2) by simp
  have tk: "take (min 6 (n + 1 - r)) (drop r m1) = take (min 6 (n + 1 - r)) (drop r m2)"
    using assms(1-3) by (intro take_drop_agree ag) auto
  show ?thesis
    unfolding pack5_packet_eq [OF assms(1,3)] pack5_packet_eq [OF l2 assms(3)] tk ..
qed

lemma next_degen_frame:
  "(\<And>j. d \<le> j \<Longrightarrow> j \<le> n \<Longrightarrow> m1 ! j = m2 ! j) \<Longrightarrow> next_degen m1 n d = next_degen m2 n d"
proof (induction m1 n d rule: next_degen.induct)
  case (1 m1 n d)
  show ?case
  proof (cases "d \<le> n")
    case False
    then show ?thesis by (simp add: next_degen.simps [of _ n d])
  next
    case True
    then have eq: "m1 ! d = m2 ! d" using "1.prems" by simp
    show ?thesis
    proof (cases "m1 ! d > 3")
      case hit: True
      with True eq show ?thesis by (simp add: next_degen.simps [of _ n d])
    next
      case False
      have "next_degen m1 n (d + 1) = next_degen m2 n (d + 1)"
        using True False "1.prems" by (intro "1.IH") simp_all
      with True False eq show ?thesis by (simp add: next_degen.simps [of _ n d])
    qed
  qed
qed

lemma pack2_packet_frame:
  assumes len: "n < length m1" "length m2 = length m1" and r: "r \<le> n"
    and ag: "\<And>j. r \<le> j \<Longrightarrow> j \<le> n \<Longrightarrow> m1 ! j = m2 ! j"
  shows "pack2_packet m1 n d r = pack2_packet m2 n d r"
proof -
  have nd: "next_degen m1 n r = next_degen m2 n r"
    by (rule next_degen_frame) (rule ag)
  have five: "(case pack5_fill m1 n 25 r f of (b, r', v) \<Rightarrow> (r', pack5_pad b v))
            = (case pack5_fill m2 n 25 r f of (b, r', v) \<Rightarrow> (r', pack5_pad b v))" for f
  proof -
    have l2: "n < length m2" using len by simp
    have tk: "take (min 6 (n + 1 - r)) (drop r m1) = take (min 6 (n + 1 - r)) (drop r m2)"
      using len r by (intro take_drop_agree ag) auto
    show ?thesis
      unfolding pack5_body_eq [OF len(1) r] pack5_body_eq [OF l2 r] tk ..
  qed
  have two: "pack2_fill m1 28 r 0 = pack2_fill m2 28 r 0" if "n - r + 1 \<ge> 15"
  proof -
    have l: "r + 15 \<le> length m1" "r + 15 \<le> length m2" using that len by simp_all
    have tk: "take 15 (drop r m1) = take 15 (drop r m2)"
      using that l by (intro take_drop_agree ag) auto
    have e1: "pack2_fill m1 28 r 0 = (r + 15, 0 OR or2 28 (take 15 (drop r m1)))"
      using pack2_fill_eq [OF l(1), of 0] by simp
    have e2: "pack2_fill m2 28 r 0 = (r + 15, 0 OR or2 28 (take 15 (drop r m2)))"
      using pack2_fill_eq [OF l(2), of 0] by simp
    show ?thesis unfolding e1 e2 tk ..
  qed
  show ?thesis
    unfolding pack2_packet_def nd five using two by (simp add: Let_def)
qed

lemma pack5_packet_next:
  assumes "n < length ds" "r \<le> n"
  shows "fst (pack5_packet ds n r) = r + min 6 (n + 1 - r)"
  using pack5_packet_eq [OF assms] by simp

lemma pack2_packet_next:
  assumes "n < length ds" "r \<le> n"
  shows "fst (snd (pack2_packet ds n d r)) = r + 15 \<or>
         fst (snd (pack2_packet ds n d r)) = r + min 6 (n + 1 - r)"
proof -
  have five: "(case pack5_fill ds n 25 r (push_bit 30 1) of (b, r', v) \<Rightarrow> (r', pack5_pad b v))
        = (r + min 6 (n + 1 - r),
           push_bit 30 1 OR payload5 (take (min 6 (n + 1 - r)) (drop r ds)))"
    by (rule pack5_body_eq [OF assms])
  have two: "pack2_fill ds 28 r 0 = (r + 15, 0 OR or2 28 (take 15 (drop r ds)))"
    if "n - r + 1 \<ge> 15"
  proof -
    have l: "r + 15 \<le> length ds" using that assms by simp
    show ?thesis using pack2_fill_eq [OF l, of 0] by simp
  qed
  show ?thesis
    unfolding pack2_packet_def five using two by (auto simp: Let_def)
qed

lemma dsqdata_pack5_loop_length: "length ps \<le> length (dsqdata_pack5_loop ds n r ps)"
proof (induction ds n r ps rule: dsqdata_pack5_loop.induct)
  case (1 ds n r ps)
  show ?case
  proof (cases "r \<le> n")
    case False
    then show ?thesis by (subst dsqdata_pack5_loop.simps) simp
  next
    case True
    with "1.IH" show ?thesis by (subst dsqdata_pack5_loop.simps) simp
  qed
qed

lemma dsqdata_pack2_loop_length: "length ps \<le> length (dsqdata_pack2_loop ds n d r ps)"
proof (induction ds n d r ps rule: dsqdata_pack2_loop.induct)
  case (1 ds n d r ps)
  show ?case
  proof (cases "r \<le> n")
    case False
    then show ?thesis by (subst dsqdata_pack2_loop.simps) simp
  next
    case True
    with "1.IH" show ?thesis by (subst dsqdata_pack2_loop.simps) simp
  qed
qed

lemma pack5_inplace_loop:
  "n < length ds \<Longrightarrow> length mem = length ds \<Longrightarrow>
   (\<And>j. r \<le> j \<Longrightarrow> j \<le> n \<Longrightarrow> mem ! j = ds ! j) \<Longrightarrow> (r \<le> n \<longrightarrow> 4 * pos < r) \<Longrightarrow>
   length ps = pos \<Longrightarrow> (\<And>p. p < pos \<Longrightarrow> rd32 mem (4 * p) = ps ! p) \<Longrightarrow>
   4 * length (dsqdata_pack5_loop ds n r ps) \<le> length ds \<Longrightarrow>
   \<exists>mem'. dsqdata_pack5_inplace_loop mem n r pos
              = Inr (mem', length (dsqdata_pack5_loop ds n r ps)) \<and>
          (\<forall>p<length (dsqdata_pack5_loop ds n r ps).
             rd32 mem' (4 * p) = dsqdata_pack5_loop ds n r ps ! p)"
proof (induction mem n r pos arbitrary: ps rule: dsqdata_pack5_inplace_loop.induct)
  case (1 mem n r pos)
  note len = "1.prems"(1,2) and ag = "1.prems"(3) and below = "1.prems"(4)
    and ps = "1.prems"(5) and old = "1.prems"(6) and bound = "1.prems"(7)
  show ?case
  proof (cases "r \<le> n")
    case False
    then have "dsqdata_pack5_inplace_loop mem n r pos = Inr (mem, pos)"
      "dsqdata_pack5_loop ds n r ps = ps"
      by (simp_all add: dsqdata_pack5_inplace_loop.simps [of mem n r pos]
          dsqdata_pack5_loop.simps [of ds n r ps])
    with ps old show ?thesis by simp
  next
    case True
    let ?v = "snd (pack5_packet ds n r)"
    let ?r' = "fst (pack5_packet ds n r)"
    let ?m1 = "wr32 mem (4 * pos) ?v"
    have fr: "pack5_packet mem n r = pack5_packet ds n r"
      using len True by (intro pack5_packet_frame ag) simp_all
    have loop: "dsqdata_pack5_loop ds n r ps = dsqdata_pack5_loop ds n ?r' (ps @ [?v])"
      using True by (subst dsqdata_pack5_loop.simps) simp
    have "length (ps @ [?v]) \<le> length (dsqdata_pack5_loop ds n ?r' (ps @ [?v]))"
      by (rule dsqdata_pack5_loop_length)
    with bound ps have fit: "4 * pos + 4 \<le> length mem" unfolding loop len(2) by simp
    have r': "?r' = r + min 6 (n + 1 - r)" using len(1) True by (rule pack5_packet_next)
    from below True have b: "4 * pos < r" by simp
    have step: "dsqdata_pack5_inplace_loop mem n r pos
                = dsqdata_pack5_inplace_loop ?m1 n ?r' (pos + 1)"
      using True fit by (subst dsqdata_pack5_inplace_loop.simps) (simp add: fr)
    have "\<exists>mem'. dsqdata_pack5_inplace_loop ?m1 n ?r' (pos + 1)
              = Inr (mem', length (dsqdata_pack5_loop ds n ?r' (ps @ [?v]))) \<and>
          (\<forall>p<length (dsqdata_pack5_loop ds n ?r' (ps @ [?v])).
             rd32 mem' (4 * p) = dsqdata_pack5_loop ds n ?r' (ps @ [?v]) ! p)"
    proof (rule "1.IH" [OF True fit, unfolded fr])
      show "n < length ds" by (rule len(1))
      show "length ?m1 = length ds" using fit len(2) by (simp add: length_wr32)
      show "?m1 ! j = ds ! j" if "?r' \<le> j" "j \<le> n" for j
      proof -
        from that have "r + 6 \<le> j" unfolding r' by (simp add: min_def split: if_splits)
        with b have "4 * pos + 4 \<le> j" "r \<le> j" by simp_all
        then show ?thesis using nth_wr32_other [OF fit, of j ?v] ag [of j] that(2) len by simp
      qed
      show "?r' \<le> n \<longrightarrow> 4 * (pos + 1) < ?r'"
        using b True unfolding r' by (simp add: min_def)
      show "length (ps @ [?v]) = pos + 1" using ps by simp
      show "rd32 ?m1 (4 * p) = (ps @ [?v]) ! p" if "p < pos + 1" for p
      proof (cases "p = pos")
        case True
        then show ?thesis
          using rd32_wr32 [OF fit, of ?v] nth_append_length [of ps ?v "[]"] ps by simp
      next
        case False
        with that have p: "p < pos" by simp
        then have "rd32 ?m1 (4 * p) = rd32 mem (4 * p)"
          using fit by (intro rd32_wr32_other) simp_all
        with old [OF p] p ps show ?thesis by (simp add: nth_append)
      qed
      show "4 * length (dsqdata_pack5_loop ds n ?r' (ps @ [?v])) \<le> length ds"
        using bound unfolding loop .
    qed
    then show ?thesis unfolding step loop .
  qed
qed

lemma pack2_inplace_loop:
  "n < length ds \<Longrightarrow> length mem = length ds \<Longrightarrow>
   (\<And>j. r \<le> j \<Longrightarrow> j \<le> n \<Longrightarrow> mem ! j = ds ! j) \<Longrightarrow> (r \<le> n \<longrightarrow> 4 * pos < r) \<Longrightarrow>
   length ps = pos \<Longrightarrow> (\<And>p. p < pos \<Longrightarrow> rd32 mem (4 * p) = ps ! p) \<Longrightarrow>
   4 * length (dsqdata_pack2_loop ds n d r ps) \<le> length ds \<Longrightarrow>
   \<exists>mem'. dsqdata_pack2_inplace_loop mem n d r pos
              = Inr (mem', length (dsqdata_pack2_loop ds n d r ps)) \<and>
          (\<forall>p<length (dsqdata_pack2_loop ds n d r ps).
             rd32 mem' (4 * p) = dsqdata_pack2_loop ds n d r ps ! p)"
proof (induction mem n d r pos arbitrary: ps rule: dsqdata_pack2_inplace_loop.induct)
  case (1 mem n d r pos)
  note len = "1.prems"(1,2) and ag = "1.prems"(3) and below = "1.prems"(4)
    and ps = "1.prems"(5) and old = "1.prems"(6) and bound = "1.prems"(7)
  show ?case
  proof (cases "r \<le> n")
    case False
    then have "dsqdata_pack2_inplace_loop mem n d r pos = Inr (mem, pos)"
      "dsqdata_pack2_loop ds n d r ps = ps"
      by (simp_all add: dsqdata_pack2_inplace_loop.simps [of mem n d r pos]
          dsqdata_pack2_loop.simps [of ds n d r ps])
    with ps old show ?thesis by simp
  next
    case True
    let ?v = "snd (snd (pack2_packet ds n d r))"
    let ?r' = "fst (snd (pack2_packet ds n d r))"
    let ?d' = "fst (pack2_packet ds n d r)"
    let ?m1 = "wr32 mem (4 * pos) ?v"
    have fr: "pack2_packet mem n d r = pack2_packet ds n d r"
      using len True by (intro pack2_packet_frame ag) simp_all
    have loop: "dsqdata_pack2_loop ds n d r ps = dsqdata_pack2_loop ds n ?d' ?r' (ps @ [?v])"
      using True by (subst dsqdata_pack2_loop.simps) simp
    have "length (ps @ [?v]) \<le> length (dsqdata_pack2_loop ds n ?d' ?r' (ps @ [?v]))"
      by (rule dsqdata_pack2_loop_length)
    with bound ps have fit: "4 * pos + 4 \<le> length mem" unfolding loop len(2) by simp
    have r': "?r' = r + 15 \<or> ?r' = r + min 6 (n + 1 - r)"
      using len(1) True by (rule pack2_packet_next)
    from below True have b: "4 * pos < r" by simp
    have step: "dsqdata_pack2_inplace_loop mem n d r pos
                = dsqdata_pack2_inplace_loop ?m1 n ?d' ?r' (pos + 1)"
      using True fit by (subst dsqdata_pack2_inplace_loop.simps) (simp add: fr)
    have "\<exists>mem'. dsqdata_pack2_inplace_loop ?m1 n ?d' ?r' (pos + 1)
              = Inr (mem', length (dsqdata_pack2_loop ds n ?d' ?r' (ps @ [?v]))) \<and>
          (\<forall>p<length (dsqdata_pack2_loop ds n ?d' ?r' (ps @ [?v])).
             rd32 mem' (4 * p) = dsqdata_pack2_loop ds n ?d' ?r' (ps @ [?v]) ! p)"
    proof (rule "1.IH" [OF True fit, unfolded fr])
      show "n < length ds" by (rule len(1))
      show "length ?m1 = length ds" using fit len(2) by (simp add: length_wr32)
      show "?m1 ! j = ds ! j" if "?r' \<le> j" "j \<le> n" for j
      proof -
        from that r' have "r + 6 \<le> j" by (auto simp: min_def split: if_splits)
        with b have "4 * pos + 4 \<le> j" "r \<le> j" by simp_all
        then show ?thesis using nth_wr32_other [OF fit, of j ?v] ag [of j] that(2) len by simp
      qed
      show "?r' \<le> n \<longrightarrow> 4 * (pos + 1) < ?r'"
        using b r' True by (auto simp: min_def)
      show "length (ps @ [?v]) = pos + 1" using ps by simp
      show "rd32 ?m1 (4 * p) = (ps @ [?v]) ! p" if "p < pos + 1" for p
      proof (cases "p = pos")
        case True
        then show ?thesis
          using rd32_wr32 [OF fit, of ?v] nth_append_length [of ps ?v "[]"] ps by simp
      next
        case False
        with that have p: "p < pos" by simp
        then have "rd32 ?m1 (4 * p) = rd32 mem (4 * p)"
          using fit by (intro rd32_wr32_other) simp_all
        with old [OF p] p ps show ?thesis by (simp add: nth_append)
      qed
      show "4 * length (dsqdata_pack2_loop ds n ?d' ?r' (ps @ [?v])) \<le> length ds"
        using bound unfolding loop .
    qed
    then show ?thesis unfolding step loop .
  qed
qed

text \<open>
  The packers write the packets over the sequence they read,
  \<^verbatim>\<open>uint32_t *psq = (uint32_t *) dsq\<close>. When the buffer holds the \<open>4 \<times> plen\<close> bytes of the
  packets, the write of packet \<open>pos\<close>, to the bytes \<open>4 pos .. 4 pos + 3\<close>, lies below every
  residue still to be read, and the packets left in the buffer are those of the list-valued
  functions above.
\<close>

lemma dsqdata_pack5_inplace:
  assumes "n < length ds" "4 * length (dsqdata_pack5 ds n) \<le> length ds"
  shows "\<exists>mem'. dsqdata_pack5_inplace ds n = Inr (mem', length (dsqdata_pack5 ds n)) \<and>
           (\<forall>p<length (dsqdata_pack5 ds n). rd32 mem' (4 * p) = dsqdata_pack5 ds n ! p)"
  unfolding dsqdata_pack5_inplace_def dsqdata_pack5_def
  using assms unfolding dsqdata_pack5_def
  by (intro pack5_inplace_loop) simp_all

lemma dsqdata_pack2_inplace:
  assumes "n < length ds" "4 * length (dsqdata_pack2 ds n) \<le> length ds"
  shows "\<exists>mem'. dsqdata_pack2_inplace ds n = Inr (mem', length (dsqdata_pack2 ds n)) \<and>
           (\<forall>p<length (dsqdata_pack2 ds n). rd32 mem' (4 * p) = dsqdata_pack2 ds n ! p)"
  unfolding dsqdata_pack2_inplace_def dsqdata_pack2_def
  using assms unfolding dsqdata_pack2_def
  by (intro pack2_inplace_loop) simp_all

section \<open>The round trip of non-empty sequences\<close>

text \<open>
  The stop test of the 5-bit EOD case, \<^verbatim>\<open>((v >> bitshift) & 31) != 31\<close>, is a test on the
  residue that would be written.
\<close>

lemma res5_eq_31: "res5 v s = 31 \<longleftrightarrow> drop_bit s v AND 31 = (31::packet)"
proof
  let ?x = "drop_bit s v AND (31::packet)"
  have rt: "(ucast (ucast ?x :: 8 word) :: packet) = ?x"
    unfolding m31 by (rule bit_word_eqI) (auto simp: bit_simps)
  assume "res5 v s = 31"
  then have "(ucast (ucast ?x :: 8 word) :: packet) = ucast (31 :: 8 word)"
    unfolding res5_def by simp
  then show "?x = 31" unfolding rt by simp
next
  assume "drop_bit s v AND 31 = (31::packet)"
  then show "res5 v s = 31" unfolding res5_def by simp
qed

lemma unpack_5bit_eod_takeWhile:
  "unpack_5bit_eod v 25 = takeWhile (\<lambda>x. x \<noteq> 31) (unpack_5bit v)"
proof -
  have step: "unpack_5bit_eod v (int b)
      = (if res5 v b \<noteq> 31 then res5 v b # unpack_5bit_eod v (int b - 5) else [])" for b
    by (subst unpack_5bit_eod.simps) (simp add: res5_eq_31)
  have stop: "unpack_5bit_eod v (- 5) = []"
    by (subst unpack_5bit_eod.simps) simp
  have s: "unpack_5bit_eod v 25
      = (if res5 v 25 \<noteq> 31 then res5 v 25 # unpack_5bit_eod v 20 else [])"
    "unpack_5bit_eod v 20
      = (if res5 v 20 \<noteq> 31 then res5 v 20 # unpack_5bit_eod v 15 else [])"
    "unpack_5bit_eod v 15
      = (if res5 v 15 \<noteq> 31 then res5 v 15 # unpack_5bit_eod v 10 else [])"
    "unpack_5bit_eod v 10
      = (if res5 v 10 \<noteq> 31 then res5 v 10 # unpack_5bit_eod v 5 else [])"
    "unpack_5bit_eod v 5
      = (if res5 v 5 \<noteq> 31 then res5 v 5 # unpack_5bit_eod v 0 else [])"
    "unpack_5bit_eod v 0
      = (if res5 v 0 \<noteq> 31 then res5 v 0 # unpack_5bit_eod v (- 5) else [])"
    using step [of 25] step [of 20] step [of 15] step [of 10] step [of 5] step [of 0]
    by simp_all
  show ?thesis unfolding s stop unpack_5bit_def by simp
qed

text \<open>
  \<open>encodes xs ps\<close>: the packets \<open>ps\<close> carry the residues \<open>xs\<close>, each packet the next 15 of them
  in 2-bit fields or the next 6 (or the remaining ones, padded with code 31) in 5-bit
  fields, with the end-of-data bit on the packet that carries the last residue.
\<close>

fun encodes :: "ESL_DSQ list \<Rightarrow> packet list \<Rightarrow> bool" where
  "encodes xs [] = (xs = [])"
| "encodes xs (v # ps) =
     (xs \<noteq> [] \<and>
      (if bit v 30
       then unpack_5bit v = take 6 xs @ replicate (6 - length xs) 31 \<and>
            (bit v 31 \<longleftrightarrow> length xs \<le> 6) \<and> encodes (drop 6 xs) ps
       else 15 \<le> length xs \<and> unpack_2bit v = take 15 xs \<and>
            (bit v 31 \<longleftrightarrow> length xs = 15) \<and> encodes (drop 15 xs) ps))"

lemma encodes_Nil: "encodes [] ps \<longleftrightarrow> ps = []"
  by (cases ps) simp_all

lemma pack2_rule_encodes: "pack2_rule xs ps \<Longrightarrow> encodes xs ps"
  by (induction xs ps rule: pack2_rule.induct) (auto split: if_splits)

lemma encodes_decodes:
  "encodes xs ps \<Longrightarrow> list_all (\<lambda>x. x \<le> 30) xs \<Longrightarrow>
   concat (map packet_res ps) = xs \<and> (\<forall>p<length ps. bit (ps ! p) 31 \<longleftrightarrow> Suc p = length ps)"
proof (induction xs ps rule: encodes.induct)
  case (1 xs)
  then show ?case by simp
next
  case (2 xs v ps)
  from "2.prems"(2) have all: "\<forall>x\<in>set xs. x \<noteq> 31" unfolding list_all_iff by auto
  show ?case
  proof (cases "bit v 30")
    case five: True
    with "2.prems"(1) have E: "unpack_5bit v = take 6 xs @ replicate (6 - length xs) 31"
      "bit v 31 \<longleftrightarrow> length xs \<le> 6" "encodes (drop 6 xs) ps"
      by simp_all
    have rest: "list_all (\<lambda>x. x \<le> 30) (drop 6 xs)"
      using "2.prems"(2) unfolding list_all_iff by (auto dest: in_set_dropD)
    from "2.IH"(1) [OF five E(3) rest]
    have IH: "concat (map packet_res ps) = drop 6 xs"
      "\<forall>p<length ps. bit (ps ! p) 31 \<longleftrightarrow> Suc p = length ps" by simp_all
    have last: "ps = [] \<longleftrightarrow> length xs \<le> 6"
      using E(3) encodes_Nil [of ps] by (cases ps) auto
    have res: "packet_res v = take 6 xs"
    proof (cases "bit v 31")
      case True
      with E(2) have "take 6 xs = xs" by simp
      moreover have "takeWhile (\<lambda>x. x \<noteq> 31) (xs @ replicate (6 - length xs) 31) = xs"
        using all by simp
      ultimately show ?thesis
        using True five E(1) by (simp add: packet_res_def unpack_5bit_eod_takeWhile)
    next
      case False
      with E(2) have "6 - length xs = 0" by simp
      with False five E(1) show ?thesis by (simp add: packet_res_def)
    qed
    have "bit ((v # ps) ! p) 31 \<longleftrightarrow> Suc p = length (v # ps)" if "p < length (v # ps)" for p
    proof (cases p)
      case 0
      with E(2) last show ?thesis by auto
    next
      case (Suc q)
      with that IH(2) show ?thesis by simp
    qed
    with res IH(1) show ?thesis by simp
  next
    case two: False
    with "2.prems"(1) have E: "15 \<le> length xs" "unpack_2bit v = take 15 xs"
      "bit v 31 \<longleftrightarrow> length xs = 15" "encodes (drop 15 xs) ps"
      by simp_all
    have rest: "list_all (\<lambda>x. x \<le> 30) (drop 15 xs)"
      using "2.prems"(2) unfolding list_all_iff by (auto dest: in_set_dropD)
    from "2.IH"(2) [OF two E(4) rest]
    have IH: "concat (map packet_res ps) = drop 15 xs"
      "\<forall>p<length ps. bit (ps ! p) 31 \<longleftrightarrow> Suc p = length ps" by simp_all
    have last: "ps = [] \<longleftrightarrow> length xs = 15"
      using E(1,4) encodes_Nil [of ps] by (cases ps) auto
    have res: "packet_res v = take 15 xs"
      using two E(2) by (simp add: packet_res_def)
    have "bit ((v # ps) ! p) 31 \<longleftrightarrow> Suc p = length (v # ps)" if "p < length (v # ps)" for p
    proof (cases p)
      case 0
      with E(3) last show ?thesis by auto
    next
      case (Suc q)
      with that IH(2) show ?thesis by simp
    qed
    with res IH(1) show ?thesis by simp
  qed
qed

lemma dsqdata_pack5_loop_encodes:
  "n < length ds \<Longrightarrow> (\<And>i. 1 \<le> i \<Longrightarrow> i \<le> n \<Longrightarrow> ds ! i \<le> 30) \<Longrightarrow> 1 \<le> r \<Longrightarrow> r \<le> n + 1 \<Longrightarrow>
   \<exists>qs. dsqdata_pack5_loop ds n r ps = ps @ qs \<and> encodes (take (n + 1 - r) (drop r ds)) qs \<and>
        list_all (\<lambda>v. bit v 30) qs"
proof (induction ds n r ps rule: dsqdata_pack5_loop.induct)
  case (1 ds n r ps)
  note len = "1.prems"(1) and res = "1.prems"(2)
  show ?case
  proof (cases "r \<le> n")
    case False
    with "1.prems"(4) have "n + 1 - r = 0" by simp
    with False show ?thesis by (simp add: dsqdata_pack5_loop_done)
  next
    case True
    define xs where "xs = take (n + 1 - r) (drop r ds)"
    define m where "m = min 6 (n + 1 - r)"
    define ys where "ys = take m (drop r ds)"
    define v where "v = snd (pack5_packet ds n r)"
    define r' where "r' = fst (pack5_packet ds n r)"
    have lxs: "length xs = n + 1 - r" using len True unfolding xs_def by simp
    have xs_ne: "xs \<noteq> []" using lxs True by auto
    have ys_xs: "take 6 xs = ys" unfolding xs_def ys_def m_def by simp
    have lys: "length ys = m" using len True unfolding ys_def m_def by simp
    have lys6: "length ys \<le> 6" unfolding lys m_def by simp
    have ys30: "\<forall>x\<in>set ys. x \<le> 30"
    proof
      fix x assume "x \<in> set ys"
      then obtain j where j: "j < m" "x = ys ! j" using lys by (metis in_set_conv_nth)
      then have "x = ds ! (r + j)" using len True unfolding ys_def m_def by simp
      moreover have "1 \<le> r + j" "r + j \<le> n" using j(1) "1.prems"(3) True unfolding m_def by auto
      ultimately show "x \<le> 30" using res by simp
    qed
    have r'_eq: "r' = r + m"
      unfolding r'_def m_def pack5_packet_eq [OF len True] by simp
    have v_eq: "v = (if r + m > n then push_bit 30 1 OR payload5 ys OR push_bit 31 1
                     else push_bit 30 1 OR payload5 ys)"
      unfolding v_def ys_def m_def pack5_packet_eq [OF len True] by simp
    have b30: "bit v 30"
      unfolding v_eq by (simp add: bit_simps bit_flag30 del: push_bit_of_1)
    have b31: "bit v 31 \<longleftrightarrow> length xs \<le> 6"
      unfolding v_eq lxs using payload5_bit [OF ys30, of 31] True
      by (auto simp add: bit_simps bit_flag30 bit_flag31 m_def simp del: push_bit_of_1)
    have pad: "6 - length ys = 6 - length xs" unfolding lys lxs m_def by simp
    have up: "unpack_5bit v = take 6 xs @ replicate (6 - length xs) 31"
      unfolding v_eq ys_xs using unpack_5bit_payload5 [OF lys6 ys30] pad by simp
    have rest: "take (n + 1 - r') (drop r' ds) = drop 6 xs"
      unfolding r'_eq xs_def m_def using True by (auto simp: drop_take ac_simps min_def)
    have bnd: "1 \<le> r'" "r' \<le> n + 1"
      unfolding r'_eq m_def using True "1.prems"(3) by (auto simp: min_def)
    have unfold: "dsqdata_pack5_loop ds n r ps = dsqdata_pack5_loop ds n r' (ps @ [v])"
      using True unfolding r'_def v_def by (subst dsqdata_pack5_loop.simps) simp
    have "\<exists>qs. dsqdata_pack5_loop ds n r' (ps @ [v]) = (ps @ [v]) @ qs \<and>
              encodes (take (n + 1 - r') (drop r' ds)) qs \<and> list_all (\<lambda>v. bit v 30) qs"
      unfolding r'_def v_def
      using bnd unfolding r'_def by (intro "1.IH" [OF True] len res) simp_all
    then obtain qs where qs: "dsqdata_pack5_loop ds n r' (ps @ [v]) = (ps @ [v]) @ qs"
      "encodes (drop 6 xs) qs" "list_all (\<lambda>v. bit v 30) qs" unfolding rest by auto
    have E: "encodes xs (v # qs)" using xs_ne b30 b31 up qs(2) by simp
    show ?thesis
    proof (intro exI conjI)
      show "dsqdata_pack5_loop ds n r ps = ps @ (v # qs)" unfolding unfold qs(1) by simp
      show "encodes (take (n + 1 - r) (drop r ds)) (v # qs)" using E unfolding xs_def .
      show "list_all (\<lambda>v. bit v 30) (v # qs)" using b30 qs(3) by simp
    qed
  qed
qed

text \<open>
  What the packets of a sequence decode to: the residues of the sequence, in order, and
  only the last packet has the end-of-data bit.
\<close>

lemma dsqdata_pack5_decodes:
  assumes "n < length ds" "list_all (\<lambda>x. x \<le> 30) (take n (drop 1 ds))"
  shows "concat (map packet_res (dsqdata_pack5 ds n)) = take n (drop 1 ds)"
    and "\<forall>p<length (dsqdata_pack5 ds n).
           bit (dsqdata_pack5 ds n ! p) 31 \<longleftrightarrow> Suc p = length (dsqdata_pack5 ds n)"
    and "list_all (\<lambda>v. bit v 30) (dsqdata_pack5 ds n)"
proof -
  have res: "ds ! r \<le> 30" if "1 \<le> r" "r \<le> n" for r
  proof -
    from that assms(1) have "ds ! r = take n (drop 1 ds) ! (r - 1)" by simp
    moreover from that assms(1) have "r - 1 < length (take n (drop 1 ds))" by simp
    ultimately show ?thesis using assms(2) unfolding list_all_iff by (metis nth_mem)
  qed
  from dsqdata_pack5_loop_encodes [OF assms(1) res, of 1 "[]"]
  have E: "encodes (take n (drop 1 ds)) (dsqdata_pack5 ds n)"
    and "list_all (\<lambda>v. bit v 30) (dsqdata_pack5 ds n)"
    by (auto simp: dsqdata_pack5_def)
  then show "list_all (\<lambda>v. bit v 30) (dsqdata_pack5 ds n)" by simp
  from encodes_decodes [OF E assms(2)]
  show "concat (map packet_res (dsqdata_pack5 ds n)) = take n (drop 1 ds)"
    and "\<forall>p<length (dsqdata_pack5 ds n).
           bit (dsqdata_pack5 ds n ! p) 31 \<longleftrightarrow> Suc p = length (dsqdata_pack5 ds n)"
    by simp_all
qed

lemma dsqdata_pack2_decodes:
  assumes "n < length ds" "list_all (\<lambda>x. x \<le> 30) (take n (drop 1 ds))"
  shows "concat (map packet_res (dsqdata_pack2 ds n)) = take n (drop 1 ds)"
    and "\<forall>p<length (dsqdata_pack2 ds n).
           bit (dsqdata_pack2 ds n ! p) 31 \<longleftrightarrow> Suc p = length (dsqdata_pack2 ds n)"
proof -
  have res: "ds ! r \<le> 30" if "1 \<le> r" "r \<le> n" for r
  proof -
    from that assms(1) have "ds ! r = take n (drop 1 ds) ! (r - 1)" by simp
    moreover from that assms(1) have "r - 1 < length (take n (drop 1 ds))" by simp
    ultimately show ?thesis using assms(2) unfolding list_all_iff by (metis nth_mem)
  qed
  from dsqdata_pack2_loop_rule [OF assms(1) res, of 1 0 "[]"]
  have "pack2_rule (take n (drop 1 ds)) (dsqdata_pack2 ds n)"
    by (auto simp: dsqdata_pack2_def)
  then have "encodes (take n (drop 1 ds)) (dsqdata_pack2 ds n)" by (rule pack2_rule_encodes)
  from encodes_decodes [OF this assms(2)]
  show "concat (map packet_res (dsqdata_pack2 ds n)) = take n (drop 1 ds)"
    and "\<forall>p<length (dsqdata_pack2 ds n).
           bit (dsqdata_pack2 ds n ! p) 31 \<longleftrightarrow> Suc p = length (dsqdata_pack2 ds n)"
    by simp_all
qed

text \<open>What a packet adds to the unpacked arena: its residues and, at the end of a sequence, a sentinel.\<close>

definition packet_bytes :: "packet \<Rightarrow> ESL_DSQ list" where
  "packet_bytes v = packet_res v @ (if bit v 31 then [eslDSQ_SENTINEL] else [])"

lemma take_overwrite:
  "r + length w \<le> length m \<Longrightarrow> take (r + length w) (overwrite m r w) = take r m @ w"
  by (simp add: overwrite_def)

lemma unpack_packet_content:
  assumes ok: "unpack_packet v (chu, r, i) = Inr (chu', r', i')" and r: "r \<le> length (smem chu)"
  shows "r' = r + length (packet_bytes v)"
    and "take r' (smem chu') = take r (smem chu) @ packet_bytes v"
proof -
  note D = unpack_packet_InrD [OF ok r]
  from unpack_packet_step [OF D(1) D(2)] ok
  have r': "r' = r + length (packet_res v) + (if bit v 31 then 1 else 0)"
    and sm: "smem chu' = overwrite (smem chu) r (packet_bytes v)"
    unfolding packet_bytes_def by auto
  show l: "r' = r + length (packet_bytes v)" unfolding r' packet_bytes_def by simp
  have "r + length (packet_bytes v) \<le> length (smem chu)"
    using D(1) unfolding packet_bytes_def by (simp split: if_splits)
  then show "take r' (smem chu') = take r (smem chu) @ packet_bytes v"
    unfolding l sm by (rule take_overwrite)
qed

lemma content_loop:
  assumes rpp: "rpp = 6 \<or> rpp = 15"
    and U: "length (smem chu0) = rpp * M + maxseq + 1"
    and P: "psq chu0 = rpp * M + maxseq + 1 - 4 * M"
    and arr: "length (dsq chu0) = maxseq" "length (L chu0) = maxseq" "N chu0 \<le> int maxseq"
    and ps: "length ps \<le> M" "length (filter (\<lambda>v. bit v 31) ps) \<le> maxseq"
      "\<forall>v\<in>set ps. length (packet_res v) \<le> rpp"
    and B: "B \<le> length ps"
  shows "pn (fst st) = int B \<Longrightarrow> k \<le> B \<Longrightarrow> inplace_inv rpp chu0 ps st k \<Longrightarrow>
         \<exists>st'. unpack_packets st k = Inr st' \<and> inplace_inv rpp chu0 ps st' B \<and>
           take (fst (snd st')) (smem (fst st'))
             = take (fst (snd st)) (smem (fst st)) @ concat (map packet_bytes (drop k (take B ps)))"
proof (induction "B - k" arbitrary: k st)
  case 0
  then have "k = B" by simp
  with 0 show ?case by (subst unpack_packets.simps) simp
next
  case (Suc d)
  then have k: "k < B" by simp
  with B have kl: "k < length ps" by simp
  obtain chu r i where st: "st = (chu, r, i)" by (cases st) auto
  from inplace_step [OF rpp U P arr ps Suc.prems(3) kl]
  obtain st' where gp: "get_packet (fst st) k = Inr (ps ! k)"
    and step: "unpack_packet (ps ! k) st = Inr st'" and pn': "pn (fst st') = pn (fst st)"
    and inv': "inplace_inv rpp chu0 ps st' (Suc k)"
    by blast
  obtain chu1 r1 i1 where st1: "st' = (chu1, r1, i1)" by (cases st') auto
  from Suc.prems(3) have I: "length (smem chu) = length (smem chu0)"
    "i = length (filter (\<lambda>v. bit v 31) (take k ps))" "r \<le> 1 + rpp * k + i"
    unfolding inplace_inv_def st by simp_all
  have "i \<le> length (filter (\<lambda>v. bit v 31) ps)" unfolding I(2) by (rule length_filter_take)
  with ps(2) have "i \<le> maxseq" by simp
  moreover have "k \<le> M" using kl ps(1) by simp
  then have "rpp * k \<le> rpp * M" by (rule mult_le_mono2)
  ultimately have rl: "r \<le> length (smem chu)" using I(3) unfolding I(1) U by linarith
  from unpack_packet_content [OF step [unfolded st st1] rl]
  have c1: "take r1 (smem chu1) = take r (smem chu) @ packet_bytes (ps ! k)" by simp
  have "\<exists>st''. unpack_packets st' (Suc k) = Inr st'' \<and> inplace_inv rpp chu0 ps st'' B \<and>
           take (fst (snd st'')) (smem (fst st''))
             = take (fst (snd st')) (smem (fst st')) @
               concat (map packet_bytes (drop (Suc k) (take B ps)))"
    using Suc.hyps(2) k pn' Suc.prems(1) inv' by (intro Suc.hyps(1)) simp_all
  moreover have "unpack_packets st k = unpack_packets st' (k + 1)"
    using k Suc.prems(1) gp step by (subst unpack_packets.simps) simp
  moreover have "drop k (take B ps) = ps ! k # drop (Suc k) (take B ps)"
    using k kl by (simp add: Cons_nth_drop_Suc [symmetric])
  ultimately show ?case unfolding st st1 using c1 by auto
qed

text \<open>
  The unpacked image of a list of sequences: a sentinel, then each sequence followed by a
  sentinel. \<open>seq_offset seqs k\<close> is the offset of the sentinel that leads sequence \<open>k\<close>.
\<close>

definition unpacked_image :: "ESL_DSQ list list \<Rightarrow> ESL_DSQ list" where
  "unpacked_image seqs = eslDSQ_SENTINEL # concat (map (\<lambda>xs. xs @ [eslDSQ_SENTINEL]) seqs)"

definition seq_offset :: "ESL_DSQ list list \<Rightarrow> nat \<Rightarrow> nat" where
  "seq_offset seqs k = length (concat (map (\<lambda>xs. xs @ [eslDSQ_SENTINEL]) (take k seqs)))"

lemma seq_offset_0: "seq_offset seqs 0 = 0"
  by (simp add: seq_offset_def)

lemma seq_offset_Suc:
  "k < length seqs \<Longrightarrow> seq_offset seqs (Suc k) = seq_offset seqs k + length (seqs ! k) + 1"
  by (simp add: seq_offset_def take_Suc_conv_app_nth)

lemma unpacked_image_split:
  assumes "k < length seqs"
  shows "unpacked_image seqs
         = (eslDSQ_SENTINEL # concat (map (\<lambda>xs. xs @ [eslDSQ_SENTINEL]) (take k seqs))) @
           seqs ! k @ eslDSQ_SENTINEL # concat (map (\<lambda>xs. xs @ [eslDSQ_SENTINEL]) (drop (Suc k) seqs))"
proof -
  let ?f = "\<lambda>xs. xs @ [eslDSQ_SENTINEL]"
  have "seqs = take k seqs @ seqs ! k # drop (Suc k) seqs"
    using assms by (rule id_take_nth_drop)
  then have "map ?f seqs = map ?f (take k seqs @ seqs ! k # drop (Suc k) seqs)"
    by (rule arg_cong)
  also have "\<dots> = map ?f (take k seqs) @ (seqs ! k @ [eslDSQ_SENTINEL]) # map ?f (drop (Suc k) seqs)"
    by (simp only: map_append list.map)
  finally show ?thesis unfolding unpacked_image_def by simp
qed

lemma unpacked_image_nth:
  assumes "k < length seqs"
  shows "j < length (seqs ! k) \<Longrightarrow> unpacked_image seqs ! (seq_offset seqs k + 1 + j) = seqs ! k ! j"
    and "unpacked_image seqs ! (seq_offset seqs k + 1 + length (seqs ! k)) = eslDSQ_SENTINEL"
    and "seq_offset seqs k + 1 + length (seqs ! k) < length (unpacked_image seqs)"
    and "take (length (seqs ! k)) (drop (seq_offset seqs k + 1) (unpacked_image seqs)) = seqs ! k"
proof -
  let ?pre = "eslDSQ_SENTINEL # concat (map (\<lambda>xs. xs @ [eslDSQ_SENTINEL]) (take k seqs))"
  let ?post = "concat (map (\<lambda>xs. xs @ [eslDSQ_SENTINEL]) (drop (Suc k) seqs))"
  have sp: "unpacked_image seqs = ?pre @ seqs ! k @ eslDSQ_SENTINEL # ?post"
    using assms by (rule unpacked_image_split)
  have lp: "length ?pre = seq_offset seqs k + 1" by (simp add: seq_offset_def)
  show "unpacked_image seqs ! (seq_offset seqs k + 1 + j) = seqs ! k ! j" if "j < length (seqs ! k)"
    unfolding sp lp [symmetric] using that by (simp add: nth_append)
  show "unpacked_image seqs ! (seq_offset seqs k + 1 + length (seqs ! k)) = eslDSQ_SENTINEL"
    unfolding sp lp [symmetric] by (simp add: nth_append)
  show "seq_offset seqs k + 1 + length (seqs ! k) < length (unpacked_image seqs)"
    unfolding sp lp [symmetric] by simp
  show "take (length (seqs ! k)) (drop (seq_offset seqs k + 1) (unpacked_image seqs)) = seqs ! k"
    unfolding sp lp [symmetric] by simp
qed

text \<open>
  An arena that holds the unpacked image and is delimited the way the routine leaves it
  has its start offsets and lengths determined: they are those of the sequences.
\<close>

lemma delimited_unique:
  fixes A :: "ESL_DSQ list" and d :: "nat list" and Ls :: "int list"
  assumes A: "take r A = unpacked_image seqs"
    and res: "\<And>k j. k < length seqs \<Longrightarrow> j < length (seqs ! k) \<Longrightarrow> seqs ! k ! j \<le> 30"
    and d0: "d ! 0 = 0"
    and dl: "\<And>k. k < length seqs \<Longrightarrow>
          0 \<le> Ls ! k \<and> d ! k + nat (Ls ! k) + 1 < r \<and>
          A ! (d ! k + nat (Ls ! k) + 1) = eslDSQ_SENTINEL \<and>
          (\<forall>j. d ! k < j \<and> j \<le> d ! k + nat (Ls ! k) \<longrightarrow> A ! j \<le> 31) \<and>
          (Suc k < length seqs \<longrightarrow> d ! Suc k = d ! k + nat (Ls ! k) + 1)"
    and k: "k < length seqs"
  shows "d ! k = seq_offset seqs k" and "Ls ! k = int (length (seqs ! k))"
proof -
  have An: "A ! j = unpacked_image seqs ! j" if "j < r" for j
    using nth_take [OF that, of A] unfolding A by simp
  have len_eq: "Ls ! k = int (length (seqs ! k))"
    if k: "k < length seqs" and dk: "d ! k = seq_offset seqs k" for k
  proof -
    let ?n = "length (seqs ! k)" and ?l = "nat (Ls ! k)" and ?o = "seq_offset seqs k"
    from dl [OF k] have D: "0 \<le> Ls ! k" "?o + ?l + 1 < r" "A ! (?o + ?l + 1) = eslDSQ_SENTINEL"
      "\<And>j. ?o < j \<Longrightarrow> j \<le> ?o + ?l \<Longrightarrow> A ! j \<le> 31"
      unfolding dk by simp_all
    have "\<not> ?l < ?n"
    proof
      assume lt: "?l < ?n"
      from unpacked_image_nth(1) [OF k lt]
      have "unpacked_image seqs ! (?o + ?l + 1) = seqs ! k ! ?l" by (simp add: ac_simps)
      with An [OF D(2)] D(3) res [OF k lt] show False
        by (simp add: eslDSQ_SENTINEL_def)
    qed
    moreover have "\<not> ?n < ?l"
    proof
      assume gt: "?n < ?l"
      have j: "?o + 1 + ?n < r" using gt D(2) by simp
      from D(4) [of "?o + 1 + ?n"] gt have "A ! (?o + 1 + ?n) \<le> 31" by simp
      with An [OF j] unpacked_image_nth(2) [OF k] show False
        by (simp add: eslDSQ_SENTINEL_def)
    qed
    ultimately have "?l = ?n" by simp
    with D(1) show ?thesis by simp
  qed
  have off: "k < length seqs \<Longrightarrow> d ! k = seq_offset seqs k" for k
  proof (induction k)
    case 0
    show ?case using d0 by (simp add: seq_offset_0)
  next
    case (Suc k)
    then have k: "k < length seqs" and dk: "d ! k = seq_offset seqs k" by simp_all
    from dl [OF k] Suc.prems have "d ! Suc k = d ! k + nat (Ls ! k) + 1" by simp
    with len_eq [OF k dk] dk show ?case by (simp add: seq_offset_Suc [OF k])
  qed
  show "d ! k = seq_offset seqs k" using k by (rule off)
  then show "Ls ! k = int (length (seqs ! k))" using k by (intro len_eq)
qed

text \<open>
  The packets the writer makes of a sequence \<open>xs\<close>: \<^verbatim>\<open>esl_dsqdata_Write\<close> calls
  \<^verbatim>\<open>dsqdata_pack5(sq->dsq, sq->n, ...)\<close> or \<^verbatim>\<open>dsqdata_pack2(sq->dsq, sq->n, ...)\<close> on the
  digital sequence, whose residues stand between two sentinels.
\<close>

definition pack_seq :: "bool \<Rightarrow> ESL_DSQ list \<Rightarrow> packet list" where
  "pack_seq do_pack5 xs =
     (if do_pack5
      then dsqdata_pack5 (eslDSQ_SENTINEL # xs @ [eslDSQ_SENTINEL]) (length xs)
      else dsqdata_pack2 (eslDSQ_SENTINEL # xs @ [eslDSQ_SENTINEL]) (length xs))"

lemma eod_last_bytes:
  "ps \<noteq> [] \<Longrightarrow> (\<forall>p<length ps. bit (ps ! p) 31 \<longleftrightarrow> Suc p = length ps) \<Longrightarrow>
   concat (map packet_bytes ps) = concat (map packet_res ps) @ [eslDSQ_SENTINEL] \<and>
   length (filter (\<lambda>v. bit v 31) ps) = 1"
proof (induction ps)
  case Nil
  then show ?case by simp
next
  case (Cons v ps)
  show ?case
  proof (cases "ps = []")
    case True
    with Cons.prems(2) have "bit v 31" by simp
    with True show ?thesis by (simp add: packet_bytes_def)
  next
    case False
    from Cons.prems(2) have "bit ((v # ps) ! 0) 31 \<longleftrightarrow> Suc 0 = length (v # ps)" by blast
    with False have v: "\<not> bit v 31" by simp
    have "bit (ps ! p) 31 \<longleftrightarrow> Suc p = length ps" if "p < length ps" for p
      using Cons.prems(2) [rule_format, of "Suc p"] that by simp
    with Cons.IH [OF False] have "concat (map packet_bytes ps)
        = concat (map packet_res ps) @ [eslDSQ_SENTINEL] \<and>
      length (filter (\<lambda>v. bit v 31) ps) = 1" by simp
    moreover have "packet_bytes v = packet_res v" using v by (simp add: packet_bytes_def)
    ultimately show ?thesis using v by simp
  qed
qed

lemma pack_seq_image:
  assumes ne: "xs \<noteq> []" and res: "list_all (\<lambda>x. x \<le> 30) xs"
  shows "concat (map packet_bytes (pack_seq do_pack5 xs)) = xs @ [eslDSQ_SENTINEL]"
    and "length (filter (\<lambda>v. bit v 31) (pack_seq do_pack5 xs)) = 1"
    and "do_pack5 \<Longrightarrow> list_all (\<lambda>v. bit v 30) (pack_seq do_pack5 xs)"
proof -
  let ?ds = "eslDSQ_SENTINEL # xs @ [eslDSQ_SENTINEL]"
  have l: "length xs < length ?ds" by simp
  have t: "take (length xs) (drop 1 ?ds) = xs" by simp
  have r: "list_all (\<lambda>x. x \<le> 30) (take (length xs) (drop 1 ?ds))" unfolding t by (rule res)
  note five = dsqdata_pack5_decodes [OF l r, unfolded t]
  note two = dsqdata_pack2_decodes [OF l r, unfolded t]
  have dec: "concat (map packet_res (pack_seq do_pack5 xs)) = xs"
    and eod: "\<forall>p<length (pack_seq do_pack5 xs).
           bit (pack_seq do_pack5 xs ! p) 31 \<longleftrightarrow> Suc p = length (pack_seq do_pack5 xs)"
    using five(1,2) two(1,2) by (simp_all add: pack_seq_def)
  from dec ne have "pack_seq do_pack5 xs \<noteq> []" by auto
  from eod_last_bytes [OF this eod] dec
  show "concat (map packet_bytes (pack_seq do_pack5 xs)) = xs @ [eslDSQ_SENTINEL]"
    and "length (filter (\<lambda>v. bit v 31) (pack_seq do_pack5 xs)) = 1" by simp_all
  show "list_all (\<lambda>v. bit v 30) (pack_seq do_pack5 xs)" if do_pack5
    using five(3) that by (simp add: pack_seq_def)
qed

lemma pack_seqs_image:
  assumes "list_all (\<lambda>xs. xs \<noteq> [] \<and> list_all (\<lambda>x. x \<le> 30) xs) seqs"
  shows "concat (map packet_bytes (concat (map (pack_seq do_pack5) seqs)))
         = concat (map (\<lambda>xs. xs @ [eslDSQ_SENTINEL]) seqs)"
    and "length (filter (\<lambda>v. bit v 31) (concat (map (pack_seq do_pack5) seqs))) = length seqs"
    and "do_pack5 \<Longrightarrow> list_all (\<lambda>v. bit v 30) (concat (map (pack_seq do_pack5) seqs))"
  using assms
proof (induction seqs)
  case Nil
  {
    case 1 show ?case by simp
  next
    case 2 show ?case by simp
  next
    case 3 show ?case by simp
  }
next
  case (Cons xs seqs)
  {
    case 1
    with Cons(1) pack_seq_image(1) [of xs do_pack5] show ?case by simp
  next
    case 2
    with Cons(2) pack_seq_image(2) [of xs do_pack5] show ?case by simp
  next
    case 3
    with Cons(3) pack_seq_image(3) [of xs do_pack5] show ?case by simp
  }
qed

text \<open>
  The residue part of the round trip, for sequences that have at least one residue. A chunk
  in the arena of \<^verbatim>\<open>dsqdata_chunk_Create\<close> is loaded with the packets of the sequences \<open>seqs\<close>
  (residue codes in \<open>0..30\<close>), \<open>N\<close> is their number. Then the residue pass ends without an
  error with the sequence index at \<open>N\<close>, and for every \<open>k < N\<close> the length \<open>L[k]\<close> is the length
  of sequence \<open>k\<close> and the \<open>L[k]\<close> bytes after \<open>dsq[k]\<close> are its residues. (A sequence without
  residues has no packet; what becomes of it is shown with the routine at empty input.)
\<close>

lemma roundtrip_residues:
  assumes ms: "0 < chunk_maxseq"
    and U: "length (smem chu) = chunk_U chunk_maxseq chunk_maxpacket do_pack5"
    and P: "psq chu = chunk_U chunk_maxseq chunk_maxpacket do_pack5 - 4 * chunk_maxpacket"
    and arr: "length (dsq chu) = chunk_maxseq" "length (L chu) = chunk_maxseq"
    and pn0: "0 \<le> pn chu" and pn: "pn chu \<le> int chunk_maxpacket"
    and N: "N chu = int (length seqs)" "length seqs \<le> chunk_maxseq"
    and seqs: "list_all (\<lambda>xs. xs \<noteq> [] \<and> list_all (\<lambda>x. x \<le> 30) xs) seqs"
    and ld: "loaded_packets chu = concat (map (pack_seq do_pack5) seqs)"
  shows "\<exists>chu' r. unpack_residues chu = Inr (chu', r, length seqs) \<and>
           (\<forall>k<length seqs.
              dsq chu' ! k = seq_offset seqs k \<and> L chu' ! k = int (length (seqs ! k)) \<and>
              take (length (seqs ! k)) (drop (dsq chu' ! k + 1) (smem chu')) = seqs ! k)"
proof -
  define rpp :: nat where "rpp = (if do_pack5 then 6 else 15)"
  define M where "M = chunk_maxpacket"
  define ps where "ps = loaded_packets chu"
  let ?S = eslDSQ_SENTINEL
  define st0 :: ustate
    where "st0 = (chu\<lparr>dsq := (dsq chu)[0 := 0], smem := overwrite (smem chu) 0 [?S]\<rparr>, 1, 0)"
  have rpp: "rpp = 6 \<or> rpp = 15" unfolding rpp_def by simp
  have Uc: "length (smem chu) = rpp * M + chunk_maxseq + 1"
    unfolding rpp_def M_def using U by (simp add: chunk_U_def)
  have Pc: "psq chu = rpp * M + chunk_maxseq + 1 - 4 * M"
    unfolding rpp_def M_def using P by (simp add: chunk_U_def)
  have arrc: "length (dsq chu) = chunk_maxseq" "length (L chu) = chunk_maxseq"
    "N chu \<le> int chunk_maxseq"
    using arr N by simp_all
  have lps: "length ps = nat (pn chu)" unfolding ps_def loaded_packets_def by simp
  have psM: "length ps \<le> M" unfolding lps M_def using pn by simp
  have img: "concat (map packet_bytes ps) = concat (map (\<lambda>xs. xs @ [?S]) seqs)"
    and eods: "length (filter (\<lambda>v. bit v 31) ps) = length seqs"
    and five: "do_pack5 \<Longrightarrow> list_all (\<lambda>v. bit v 30) ps"
    unfolding ps_def ld using pack_seqs_image [OF seqs, of do_pack5] by simp_all
  have cnt: "length (filter (\<lambda>v. bit v 31) ps) \<le> chunk_maxseq"
    unfolding eods by (rule N(2))
  have res: "\<forall>v\<in>set ps. length (packet_res v) \<le> rpp"
  proof
    fix v assume v: "v \<in> set ps"
    show "length (packet_res v) \<le> rpp"
    proof (cases do_pack5)
      case True
      with five v have "bit v 30" unfolding list_all_iff by simp
      then show ?thesis using True length_packet_res5 [of v] unfolding rpp_def by simp
    next
      case False
      then show ?thesis using length_packet_res [of v] unfolding rpp_def by simp
    qed
  qed
  have PU: "psq chu + 4 * M = length (smem chu)" using rpp unfolding Uc Pc by auto
  have P1: "1 \<le> psq chu" using rpp unfolding Pc by auto
  have ps_nth: "ps ! j = rd32 (smem chu) (psq chu + 4 * j)" if "j < length ps" for j
    using that unfolding ps_def loaded_packets_def by simp
  have em0: "emit [?S] (chu\<lparr>dsq := (dsq chu)[0 := 0]\<rparr>, 0, 0) = Inr st0"
    unfolding st0_def using Uc by (simp add: emit_eq del: emit.simps)
  have d0: "0 < length (dsq chu)" using arr(1) ms by simp
  have init: "unpack_residues chu = unpack_packets st0 0"
    unfolding unpack_residues_def em0 using d0 by simp
  have lsm0: "length (smem (fst st0)) = length (smem chu)"
    unfolding st0_def using Uc by (simp add: length_overwrite)
  have frame0: "rd32 (smem (fst st0)) (psq chu + 4 * j) = ps ! j" if "j < length ps" for j
  proof -
    have "0 + length [?S] \<le> psq chu + 4 * j" using P1 by simp
    moreover have "psq chu + 4 * j + 4 \<le> length (smem chu)" using that psM PU by simp
    ultimately have "rd32 (overwrite (smem chu) 0 [?S]) (psq chu + 4 * j)
        = rd32 (smem chu) (psq chu + 4 * j)"
      by (rule rd32_overwrite)
    then show ?thesis unfolding st0_def using ps_nth [OF that] by simp
  qed
  have inv0: "inplace_inv rpp chu ps st0 0"
    unfolding inplace_inv_def using lsm0 frame0 by (simp add: st0_def)
  have pnc: "pn (fst st0) = int (length ps)" unfolding st0_def lps using pn0 by simp
  from content_loop [OF rpp Uc Pc arrc psM cnt res le_refl pnc _ inv0]
  obtain st' where run: "unpack_packets st0 0 = Inr st'"
    and inv: "inplace_inv rpp chu ps st' (length ps)"
    and cont: "take (fst (snd st')) (smem (fst st'))
             = take (fst (snd st0)) (smem (fst st0)) @ concat (map packet_bytes ps)"
    by auto
  obtain chu' r i where st': "st' = (chu', r, i)" by (cases st') auto
  from inv have i: "i = length seqs" unfolding inplace_inv_def st' eods [symmetric] by simp
  have "take (fst (snd st0)) (smem (fst st0)) = [?S]"
    unfolding st0_def using Uc by (simp add: overwrite_def)
  with cont have image: "take r (smem chu') = unpacked_image seqs"
    unfolding st' img unpacked_image_def by simp
  from layout_init [OF em0 d0] have l0: "layout_inv st0" "N (fst st0) = N chu" by simp_all
  from layout_loop [OF l0(1) run] l0(2)
  have linv: "layout_inv (chu', r, i)" and N': "N chu' = int (length seqs)"
    unfolding st' N(1) by simp_all
  from linv have z: "dsq chu' ! 0 = 0" and dn: "\<And>k. k < length seqs \<Longrightarrow> seq_done chu' r k"
    by (simp_all add: layout_inv_def N' i)
  have r30: "seqs ! k ! j \<le> 30" if "k < length seqs" "j < length (seqs ! k)" for k j
  proof -
    from that(1) seqs have "list_all (\<lambda>x. x \<le> 30) (seqs ! k)"
      unfolding list_all_length by simp
    with that(2) show ?thesis unfolding list_all_length by simp
  qed
  have dl: "0 \<le> L chu' ! k \<and> dsq chu' ! k + nat (L chu' ! k) + 1 < r \<and>
          smem chu' ! (dsq chu' ! k + nat (L chu' ! k) + 1) = ?S \<and>
          (\<forall>j. dsq chu' ! k < j \<and> j \<le> dsq chu' ! k + nat (L chu' ! k) \<longrightarrow> smem chu' ! j \<le> 31) \<and>
          (Suc k < length seqs \<longrightarrow> dsq chu' ! Suc k = dsq chu' ! k + nat (L chu' ! k) + 1)"
    if "k < length seqs" for k
    using dn [OF that] by (simp add: seq_done_def N')
  have fields: "dsq chu' ! k = seq_offset seqs k \<and> L chu' ! k = int (length (seqs ! k)) \<and>
      take (length (seqs ! k)) (drop (dsq chu' ! k + 1) (smem chu')) = seqs ! k"
    if k: "k < length seqs" for k
  proof -
    note u = delimited_unique [OF image r30 z dl k]
    let ?a = "seq_offset seqs k + 1" and ?n = "length (seqs ! k)"
    have "?a + ?n < length (unpacked_image seqs)" using unpacked_image_nth(3) [OF k] .
    then have b: "?a + ?n \<le> r" unfolding image [symmetric] by simp
    have "take ?n (drop ?a (smem chu')) = take ?n (drop ?a (take r (smem chu')))"
      using b by (simp add: drop_take min_def)
    also have "\<dots> = seqs ! k" unfolding image using unpacked_image_nth(4) [OF k] .
    finally show ?thesis using u by simp
  qed
  have "unpack_residues chu = Inr (chu', r, length seqs)"
    unfolding init run st' i ..
  with fields show ?thesis by blast
qed

text \<open>The lemma at a protein chunk of the two sequences \<open>[1]\<close> and \<open>[2]\<close>, at the second one.\<close>

lemma roundtrip_residues_example:
  "\<exists>chu' r. unpack_residues
      \<lparr>i0 = 0, N = 2, pn = 2, dsq = [0, 0], name = [0, 0], acc = [0, 0], desc = [0, 0],
       taxid = [0, 0], L = [0, 0], metadata = replicate 40 0, mdalloc = 40,
       smem = [0, 0, 0, 0, 0, 0, 0, 0xFF, 0xFF, 0xFF, 0xC3, 0xFF, 0xFF, 0xFF, 0xC5],
       psq = 7\<rparr> = Inr (chu', r, 2) \<and>
     L chu' ! 1 = 1 \<and> dsq chu' ! 1 = 2 \<and> take 1 (drop (dsq chu' ! 1 + 1) (smem chu')) = [2]"
proof -
  let ?c = "\<lparr>i0 = 0, N = 2, pn = 2, dsq = [0, 0], name = [0, 0], acc = [0, 0], desc = [0, 0],
       taxid = [0, 0], L = [0, 0], metadata = replicate 40 0, mdalloc = 40,
       smem = [0, 0, 0, 0, 0, 0, 0, 0xFF, 0xFF, 0xFF, 0xC3, 0xFF, 0xFF, 0xFF, 0xC5],
       psq = 7\<rparr>"
  let ?seqs = "[[1], [2]] :: ESL_DSQ list list"
  have lp: "loaded_packets ?c = [0xC3FFFFFF, 0xC5FFFFFF]"
    by (simp add: loaded_packets_def rd32_def upt_rec)
  have pk: "concat (map (pack_seq True) ?seqs) = [0xC3FFFFFF, 0xC5FFFFFF]"
    by (simp add: pack_seq_def pack5_eval eslDSQ_SENTINEL_def)
  have h: "0 < (2::nat)" "length (smem ?c) = chunk_U 2 2 True"
    "psq ?c = chunk_U 2 2 True - 4 * 2" "length (dsq ?c) = 2" "length (L ?c) = 2"
    "0 \<le> pn ?c" "pn ?c \<le> int 2" "N ?c = int (length ?seqs)" "length ?seqs \<le> 2"
    "list_all (\<lambda>xs. xs \<noteq> [] \<and> list_all (\<lambda>x. x \<le> 30) xs) ?seqs"
    "loaded_packets ?c = concat (map (pack_seq True) ?seqs)"
    unfolding lp pk by (simp_all add: chunk_U_def)
  from roundtrip_residues [OF h]
  obtain chu' r where run: "unpack_residues ?c = Inr (chu', r, length ?seqs)"
    and f: "\<forall>k<length ?seqs.
              dsq chu' ! k = seq_offset ?seqs k \<and> L chu' ! k = int (length (?seqs ! k)) \<and>
              take (length (?seqs ! k)) (drop (dsq chu' ! k + 1) (smem chu')) = ?seqs ! k"
    by blast
  from f [rule_format, of 1]
  have "L chu' ! 1 = 1 \<and> dsq chu' ! 1 = 2 \<and> take 1 (drop (dsq chu' ! 1 + 1) (smem chu')) = [2]"
    by (auto simp: seq_offset_def)
  with run show ?thesis by auto
qed

end
